theory Spec2Isabelle
  imports Complex_Main "HOL-Library.Sublist"
begin

unbundle bit_operations_syntax

section \<open>The replay engine's object model, as the scripts read it\<close>

text \<open>
  The analysis scripts of \<^verbatim>\<open>scripts/unified\<close> only read a few attributes of the objects
  that the external replay engine hands out. Python integers are unbounded, so every
  number is an \<^typ>\<open>int\<close>. An attribute that the code guards with \<^verbatim>\<open>hasattr\<close> is an
  \<^typ>\<open>'a option\<close> field: \<open>None\<close> when the object has no such attribute.

  An action is a node of the command tree: \<^verbatim>\<open>action.flags\<close>, \<^verbatim>\<open>action.eventId\<close>,
  \<^verbatim>\<open>action.numIndices\<close>, \<^verbatim>\<open>action.numInstances\<close> and \<^verbatim>\<open>action.children\<close>.
\<close>

datatype action =
  Action (flags: int) (eventId: int) (numIndices: "int option") (numInstances: "int option")
    (children: "action list")

text \<open>
  The bit masks \<^verbatim>\<open>rd.ActionFlags.Drawcall\<close>, \<^verbatim>\<open>Dispatch\<close>, \<^verbatim>\<open>Clear\<close>, \<^verbatim>\<open>Copy\<close> and
  \<^verbatim>\<open>PushMarker\<close> are constants of the external module; the scripts never define them, so
  they are a parameter of every function that tests a flag.
\<close>

record action_flags =
  Drawcall :: int
  Dispatch :: int
  Clear :: int
  Copy :: int
  PushMarker :: int

text \<open>Python's truth value of the integer \<^verbatim>\<open>flags & mask\<close>.\<close>

definition has_flag :: "int \<Rightarrow> int \<Rightarrow> bool" where
  "has_flag fl msk = (fl AND msk \<noteq> 0)"

section \<open>\<^verbatim>\<open>analyzers/basic_stats.py\<close>\<close>

text \<open>The dictionary \<^verbatim>\<open>self.results\<close> of \<^verbatim>\<open>BasicStatsAnalyzer\<close>, with its seven fixed keys.\<close>

record basic_stats =
  draw_count :: int
  dispatch_count :: int
  clear_count :: int
  copy_count :: int
  marker_count :: int
  total_actions :: int
  max_depth :: int

definition basic_stats_init :: basic_stats where
  "basic_stats_init = \<lparr>draw_count = 0, dispatch_count = 0, clear_count = 0, copy_count = 0,
     marker_count = 0, total_actions = 0, max_depth = 0\<rparr>"

text \<open>
  The body of \<^verbatim>\<open>count_actions\<close> before it recurses: the two unconditional updates and the
  five independent \<^verbatim>\<open>if\<close> statements, in the order of the source.
\<close>

definition count_node :: "action_flags \<Rightarrow> int \<Rightarrow> int \<Rightarrow> basic_stats \<Rightarrow> basic_stats" where
  "count_node rd fl depth r =
     (let r1 = r\<lparr>total_actions := total_actions r + 1\<rparr>;
          r2 = r1\<lparr>max_depth := max (max_depth r1) depth\<rparr>;
          r3 = (if has_flag fl (Drawcall rd) then r2\<lparr>draw_count := draw_count r2 + 1\<rparr> else r2);
          r4 = (if has_flag fl (Dispatch rd) then r3\<lparr>dispatch_count := dispatch_count r3 + 1\<rparr> else r3);
          r5 = (if has_flag fl (Clear rd) then r4\<lparr>clear_count := clear_count r4 + 1\<rparr> else r4);
          r6 = (if has_flag fl (Copy rd) then r5\<lparr>copy_count := copy_count r5 + 1\<rparr> else r5)
      in (if has_flag fl (PushMarker rd) then r6\<lparr>marker_count := marker_count r6 + 1\<rparr> else r6))"

text \<open>
  \<^verbatim>\<open>count_actions(action, depth)\<close> and its loop over \<^verbatim>\<open>action.children\<close>. The loop over
  \<^verbatim>\<open>controller.GetRootActions()\<close> is the same loop at depth 0. (The recursion limit of the
  interpreter, which a tree nested about a thousand levels deep would reach, is a resource
  bound like memory and is not modelled, here and in the scheduler's traversal.)
\<close>

fun count_actions :: "action_flags \<Rightarrow> action \<Rightarrow> int \<Rightarrow> basic_stats \<Rightarrow> basic_stats"
  and count_actions_list :: "action_flags \<Rightarrow> action list \<Rightarrow> int \<Rightarrow> basic_stats \<Rightarrow> basic_stats"
where
  "count_actions rd (Action fl eid ni nn cs) depth r =
     count_actions_list rd cs (depth + 1) (count_node rd fl depth r)"
| "count_actions_list rd [] depth r = r"
| "count_actions_list rd (a # as) depth r =
     count_actions_list rd as depth (count_actions rd a depth r)"

definition basic_stats_analyze :: "action_flags \<Rightarrow> action list \<Rightarrow> basic_stats" where
  "basic_stats_analyze rd roots = count_actions_list rd roots 0 basic_stats_init"

text \<open>
  What the claim speaks of: the nodes reachable from the roots through \<^verbatim>\<open>children\<close>, each
  with its nesting depth (a root has depth \<open>d\<close>, its children \<open>d + 1\<close>), in pre-order.
\<close>

fun nodes_at :: "int \<Rightarrow> action \<Rightarrow> (int \<times> action) list"
  and nodes_at_list :: "int \<Rightarrow> action list \<Rightarrow> (int \<times> action) list"
where
  "nodes_at d (Action fl eid ni nn cs) = (d, Action fl eid ni nn cs) # nodes_at_list (d + 1) cs"
| "nodes_at_list d [] = []"
| "nodes_at_list d (a # as) = nodes_at d a @ nodes_at_list d as"

definition count_flag :: "int \<Rightarrow> (int \<times> action) list \<Rightarrow> int" where
  "count_flag msk ns = int (length (filter (\<lambda>n. has_flag (flags (snd n)) msk) ns))"

definition deepest :: "(int \<times> action) list \<Rightarrow> int" where
  "deepest ns = fold max (map fst ns) 0"

text \<open>The statistics as the claim words them, over the list of reachable nodes.\<close>

definition stats_of_nodes :: "action_flags \<Rightarrow> (int \<times> action) list \<Rightarrow> basic_stats" where
  "stats_of_nodes rd ns =
     \<lparr>draw_count = count_flag (Drawcall rd) ns,
      dispatch_count = count_flag (Dispatch rd) ns,
      clear_count = count_flag (Clear rd) ns,
      copy_count = count_flag (Copy rd) ns,
      marker_count = count_flag (PushMarker rd) ns,
      total_actions = int (length ns),
      max_depth = deepest ns\<rparr>"

text \<open>Adding the statistics of a list of nodes to a running dictionary.\<close>

definition add_nodes :: "action_flags \<Rightarrow> (int \<times> action) list \<Rightarrow> basic_stats \<Rightarrow> basic_stats" where
  "add_nodes rd ns r =
     \<lparr>draw_count = draw_count r + count_flag (Drawcall rd) ns,
      dispatch_count = dispatch_count r + count_flag (Dispatch rd) ns,
      clear_count = clear_count r + count_flag (Clear rd) ns,
      copy_count = copy_count r + count_flag (Copy rd) ns,
      marker_count = marker_count r + count_flag (PushMarker rd) ns,
      total_actions = total_actions r + int (length ns),
      max_depth = fold max (map fst ns) (max_depth r)\<rparr>"

lemma count_flag_Nil: "count_flag m [] = 0"
  by (simp add: count_flag_def)

lemma count_flag_append: "count_flag m (xs @ ys) = count_flag m xs + count_flag m ys"
  by (simp add: count_flag_def)

lemma count_flag_Cons:
  "count_flag m (n # ns) = (if has_flag (flags (snd n)) m then 1 else 0) + count_flag m ns"
  by (simp add: count_flag_def)

lemma add_nodes_Nil: "add_nodes rd [] r = r"
  by (simp add: add_nodes_def count_flag_Nil)

lemma add_nodes_append: "add_nodes rd (xs @ ys) r = add_nodes rd ys (add_nodes rd xs r)"
  by (simp add: add_nodes_def count_flag_append)

lemma add_nodes_Cons:
  "add_nodes rd ((d, a) # ns) r = add_nodes rd ns (count_node rd (flags a) d r)"
  by (simp add: add_nodes_def count_node_def count_flag_Cons Let_def max.commute)

lemma count_actions_add_nodes:
  "count_actions rd a d r = add_nodes rd (nodes_at d a) r"
  "count_actions_list rd as d r = add_nodes rd (nodes_at_list d as) r"
proof (induction rd a d r and rd as d r rule: count_actions_count_actions_list.induct)
  case (1 rd fl eid ni nn cs depth r)
  then show ?case by (simp add: add_nodes_Cons)
next
  case (2 rd depth r)
  then show ?case by (simp add: add_nodes_Nil)
next
  case (3 rd a as depth r)
  then show ?case by (simp add: add_nodes_append)
qed

lemma fold_max_Max: "fold max xs (m::int) = Max (insert m (set xs))"
proof (induction xs arbitrary: m)
  case Nil
  then show ?case by simp
next
  case (Cons x xs)
  have "Max (insert (max x m) (set xs)) = Max (insert m (insert x (set xs)))"
  proof (cases "set xs = {}")
    case True
    then show ?thesis by (simp add: max.commute)
  next
    case False
    then show ?thesis by (simp add: max.assoc max.commute max.left_commute)
  qed
  with Cons show ?case by simp
qed

lemma deepest_Max: "deepest ns = Max (insert 0 (fst ` set ns))"
  by (simp add: deepest_def fold_max_Max)

lemma add_nodes_init: "add_nodes rd ns basic_stats_init = stats_of_nodes rd ns"
  by (simp add: add_nodes_def stats_of_nodes_def basic_stats_init_def deepest_def)

text \<open>
  Claim C6. \<^verbatim>\<open>BasicStatsAnalyzer.analyze\<close> returns \<^verbatim>\<open>total_actions\<close> equal to the number of
  nodes reachable from the root actions through \<^verbatim>\<open>children\<close>, \<^verbatim>\<open>max_depth\<close> equal to the
  largest nesting depth with the roots at depth 0, and each of the five category counts
  equal to the number of nodes whose flags have a bit in common with that category's
  mask; a node whose flags carry several category bits is counted once in each.
\<close>

theorem basic_stats_analyze_counts:
  "basic_stats_analyze rd roots = stats_of_nodes rd (nodes_at_list 0 roots)"
  by (simp add: basic_stats_analyze_def count_actions_add_nodes(2) add_nodes_init)


section \<open>Python's \<^verbatim>\<open>str\<close> on integers\<close>

text \<open>
  The f-strings of the analyzers print integers in decimal: \<^verbatim>\<open>f"{sem_name}{sem_idx}"\<close>,
  \<^verbatim>\<open>f"{tex.width}x{tex.height}x{tex.depth}"\<close>.
\<close>

definition digit_char :: "nat \<Rightarrow> char" where
  "digit_char d = ''0123456789'' ! (d mod 10)"

fun str_nat :: "nat \<Rightarrow> string" where
  "str_nat n = (if n < 10 then [digit_char n] else str_nat (n div 10) @ [digit_char (n mod 10)])"

declare str_nat.simps [simp del]

definition str_int :: "int \<Rightarrow> string" where
  "str_int i = (if i < 0 then CHR ''-'' # str_nat (nat (- i)) else str_nat (nat i))"

section \<open>\<^verbatim>\<open>analyzers/memory.py\<close>\<close>

text \<open>
  A texture and a buffer description, with the attributes \<^verbatim>\<open>MemoryAnalyzer.analyze\<close> and
  \<^verbatim>\<open>OverdrawAnalyzer._detect_main_resolution\<close> read. \<open>tex_format_name\<close> is the value of
  \<^verbatim>\<open>tex.format.Name() if hasattr(tex.format, 'Name') else str(tex.format)\<close>, \<open>tex_id\<close>
  is \<^verbatim>\<open>str(tex.resourceId)\<close>, and \<open>tex_name\<close> is \<open>None\<close> when the attribute \<^verbatim>\<open>name\<close> is
  absent.
\<close>

record texture =
  tex_byteSize :: "int option"
  tex_format_name :: string
  tex_id :: string
  tex_name :: "string option"
  tex_width :: int
  tex_height :: int
  tex_depth :: int
  tex_mips :: int
  tex_creationFlags :: "int option"

record buffer =
  buf_length :: "int option"
  buf_id :: string
  buf_name :: "string option"

record format_stat =
  fs_count :: int
  fs_size :: int

record large_texture =
  lt_id :: string
  lt_name :: string
  lt_size :: int
  lt_format :: string
  lt_dimensions :: string
  lt_mips :: int

record large_buffer =
  lb_id :: string
  lb_name :: string
  lb_size :: int

text \<open>The dictionary \<^verbatim>\<open>self.results\<close> of \<^verbatim>\<open>MemoryAnalyzer\<close>.\<close>

record memory_results =
  texture_count :: int
  texture_size :: int
  buffer_count :: int
  buffer_size :: int
  total_size :: int
  texture_formats :: "string \<rightharpoonup> format_stat"
  large_textures :: "large_texture list"
  large_buffers :: "large_buffer list"

definition memory_results_init :: memory_results where
  "memory_results_init = \<lparr>texture_count = 0, texture_size = 0, buffer_count = 0, buffer_size = 0,
     total_size = 0, texture_formats = Map.empty, large_textures = [], large_buffers = []\<rparr>"

text \<open>
  \<^verbatim>\<open>tex.name if hasattr(tex, 'name') and tex.name else f"Texture_{tex.resourceId}"\<close>: an
  empty name is false in Python.
\<close>

definition name_or :: "string option \<Rightarrow> string \<Rightarrow> string" where
  "name_or n dflt = (case n of None \<Rightarrow> dflt | Some s \<Rightarrow> if s = [] then dflt else s)"

text \<open>
  \<^verbatim>\<open>texture_formats\<close> is a \<^verbatim>\<open>defaultdict\<close> whose missing entries start at count 0 and
  size 0.
\<close>

definition bump_format :: "string \<Rightarrow> int \<Rightarrow> (string \<rightharpoonup> format_stat) \<Rightarrow> (string \<rightharpoonup> format_stat)" where
  "bump_format k sz m =
     (let e = (case m k of None \<Rightarrow> \<lparr>fs_count = 0, fs_size = 0\<rparr> | Some e \<Rightarrow> e)
      in m(k \<mapsto> \<lparr>fs_count = fs_count e + 1, fs_size = fs_size e + sz\<rparr>))"

text \<open>The body of the loop \<^verbatim>\<open>for tex in textures\<close>; the state is the results and the defaultdict.\<close>

definition texture_step ::
  "texture \<Rightarrow> memory_results \<times> (string \<rightharpoonup> format_stat) \<Rightarrow> memory_results \<times> (string \<rightharpoonup> format_stat)" where
  "texture_step tex st =
     (let r = fst st; tf = snd st;
          sz = (case tex_byteSize tex of None \<Rightarrow> 0 | Some b \<Rightarrow> b);
          r1 = r\<lparr>texture_size := texture_size r + sz\<rparr>;
          fmt_name = tex_format_name tex;
          tf1 = bump_format fmt_name sz tf;
          r2 = (if sz > 16 * 1024 * 1024
                then r1\<lparr>large_textures := large_textures r1 @
                       [\<lparr>lt_id = tex_id tex,
                         lt_name = name_or (tex_name tex) (''Texture_'' @ tex_id tex),
                         lt_size = sz,
                         lt_format = fmt_name,
                         lt_dimensions = str_int (tex_width tex) @ ''x'' @ str_int (tex_height tex)
                            @ ''x'' @ str_int (tex_depth tex),
                         lt_mips = tex_mips tex\<rparr>]\<rparr>
                else r1)
      in (r2, tf1))"

text \<open>The body of the loop \<^verbatim>\<open>for buf in buffers\<close>.\<close>

definition buffer_step :: "buffer \<Rightarrow> memory_results \<Rightarrow> memory_results" where
  "buffer_step buf r =
     (let sz = (case buf_length buf of None \<Rightarrow> 0 | Some l \<Rightarrow> l);
          r1 = r\<lparr>buffer_size := buffer_size r + sz\<rparr>
      in if sz > 8 * 1024 * 1024
         then r1\<lparr>large_buffers := large_buffers r1 @
                [\<lparr>lb_id = buf_id buf, lb_name = name_or (buf_name buf) (''Buffer_'' @ buf_id buf),
                  lb_size = sz\<rparr>]\<rparr>
         else r1)"

text \<open>
  \<^verbatim>\<open>list.sort(key=..., reverse=True)\<close> sorts into descending order of the key and stays
  stable: elements with equal keys keep their order. That is the list reversed, sorted
  stably into ascending order (\<^const>\<open>sort_key\<close> is a stable insertion sort) and reversed
  again.
\<close>

definition sort_desc :: "('a \<Rightarrow> 'k::linorder) \<Rightarrow> 'a list \<Rightarrow> 'a list" where
  "sort_desc key xs = rev (sort_key key (rev xs))"

text \<open>
  \<^verbatim>\<open>MemoryAnalyzer.analyze\<close>, given the lists returned by \<^verbatim>\<open>controller.GetTextures()\<close> and
  \<^verbatim>\<open>controller.GetBuffers()\<close>.
\<close>

definition memory_analyze :: "texture list \<Rightarrow> buffer list \<Rightarrow> memory_results" where
  "memory_analyze textures buffers =
     (let r0 = memory_results_init\<lparr>texture_count := int (length textures)\<rparr>;
          st = fold texture_step textures (r0, Map.empty);
          r1 = (fst st)\<lparr>buffer_count := int (length buffers)\<rparr>;
          r2 = fold buffer_step buffers r1;
          r3 = r2\<lparr>total_size := texture_size r2 + buffer_size r2\<rparr>;
          r4 = r3\<lparr>texture_formats := snd st\<rparr>;
          r5 = r4\<lparr>large_textures := sort_desc lt_size (large_textures r4)\<rparr>
      in r5\<lparr>large_buffers := sort_desc lb_size (large_buffers r5)\<rparr>)"

text \<open>The size the claim assigns to a resource: the attribute, or 0 when it is absent.\<close>

definition size_or_zero :: "int option \<Rightarrow> int" where
  "size_or_zero v = (case v of None \<Rightarrow> 0 | Some b \<Rightarrow> b)"

lemma texture_step_fields:
  "texture_count (fst (texture_step t st)) = texture_count (fst st)"
  "texture_size (fst (texture_step t st)) = texture_size (fst st) + size_or_zero (tex_byteSize t)"
  "buffer_count (fst (texture_step t st)) = buffer_count (fst st)"
  "buffer_size (fst (texture_step t st)) = buffer_size (fst st)"
  by (simp_all add: texture_step_def size_or_zero_def Let_def)

lemma fold_texture_step_fields:
  "texture_count (fst (fold texture_step ts st)) = texture_count (fst st)"
  "texture_size (fst (fold texture_step ts st)) =
     texture_size (fst st) + sum_list (map (\<lambda>t. size_or_zero (tex_byteSize t)) ts)"
  "buffer_count (fst (fold texture_step ts st)) = buffer_count (fst st)"
  "buffer_size (fst (fold texture_step ts st)) = buffer_size (fst st)"
  by (induction ts arbitrary: st) (simp_all add: texture_step_fields)

lemma buffer_step_fields:
  "texture_count (buffer_step b r) = texture_count r"
  "texture_size (buffer_step b r) = texture_size r"
  "buffer_count (buffer_step b r) = buffer_count r"
  "buffer_size (buffer_step b r) = buffer_size r + size_or_zero (buf_length b)"
  by (simp_all add: buffer_step_def size_or_zero_def Let_def)

lemma fold_buffer_step_fields:
  "texture_count (fold buffer_step bs r) = texture_count r"
  "texture_size (fold buffer_step bs r) = texture_size r"
  "buffer_count (fold buffer_step bs r) = buffer_count r"
  "buffer_size (fold buffer_step bs r) =
     buffer_size r + sum_list (map (\<lambda>b. size_or_zero (buf_length b)) bs)"
  by (induction bs arbitrary: r) (simp_all add: buffer_step_fields)

text \<open>
  Claim C4. \<^verbatim>\<open>MemoryAnalyzer.analyze\<close> is a pure aggregation over the two resource lists:
  \<^verbatim>\<open>texture_count\<close> is the length of \<^verbatim>\<open>GetTextures()\<close>, \<^verbatim>\<open>buffer_count\<close> the length of
  \<^verbatim>\<open>GetBuffers()\<close>, \<^verbatim>\<open>texture_size\<close> the sum of the textures' \<^verbatim>\<open>byteSize\<close> and
  \<^verbatim>\<open>buffer_size\<close> the sum of the buffers' \<^verbatim>\<open>length\<close> (an absent attribute counting 0), and
  \<^verbatim>\<open>total_size\<close> is exactly \<^verbatim>\<open>texture_size + buffer_size\<close>.
\<close>

theorem memory_analyze_aggregates:
  "texture_count (memory_analyze textures buffers) = int (length textures) \<and>
   buffer_count (memory_analyze textures buffers) = int (length buffers) \<and>
   texture_size (memory_analyze textures buffers) =
     sum_list (map (\<lambda>t. size_or_zero (tex_byteSize t)) textures) \<and>
   buffer_size (memory_analyze textures buffers) =
     sum_list (map (\<lambda>b. size_or_zero (buf_length b)) buffers) \<and>
   total_size (memory_analyze textures buffers) =
     texture_size (memory_analyze textures buffers) + buffer_size (memory_analyze textures buffers)"
  by (simp add: memory_analyze_def Let_def fold_buffer_step_fields fold_texture_step_fields
      memory_results_init_def)


section \<open>\<^verbatim>\<open>format_bytes\<close> of \<^verbatim>\<open>analyzers/base.py\<close>\<close>

text \<open>
  \<^verbatim>\<open>size /= 1024\<close> turns the integer into a Python float. A float is modelled by the
  rational number it stands for: for a byte count below \<open>2 ^ 53\<close> the conversion and every
  division by 1024 are exact in binary floating point, so the comparisons with 1024 and
  the printed digits are those of the rational number. Above \<open>2 ^ 53\<close> the float is the
  integer rounded to 53 bits; that rounding (and the overflow of a float beyond
  \<open>2 ^ 1024\<close>) is not part of the model.

  \<^verbatim>\<open>f"{x:.2f}"\<close> prints the value rounded to two decimals, a tie going to the even digit.
\<close>

definition round_half_even :: "rat \<Rightarrow> int" where
  "round_half_even q =
     (let f = \<lfloor>q\<rfloor>; d = q - of_int f
      in if d < 1 / 2 then f else if d > 1 / 2 then f + 1 else if even f then f else f + 1)"

definition fmt2f :: "rat \<Rightarrow> string" where
  "fmt2f q =
     (let n = nat (round_half_even (\<bar>q\<bar> * 100));
          s = str_nat (n div 100) @ ''.'' @ [digit_char (n div 10), digit_char n]
      in if q < 0 then CHR ''-'' # s else s)"

text \<open>
  The loop \<^verbatim>\<open>for unit in ['B', 'KB', 'MB', 'GB']\<close> with its early \<^verbatim>\<open>return\<close>, and the final
  \<^verbatim>\<open>return\<close> with the unit TB once the list is exhausted. The parameter is called \<open>sz\<close>
  because \<open>size\<close> is a constant of HOL.
\<close>

fun format_loop :: "rat \<Rightarrow> string list \<Rightarrow> string" where
  "format_loop sz [] = fmt2f sz @ '' TB''"
| "format_loop sz (unit # units) =
     (if sz < 1024 then fmt2f sz @ '' '' @ unit else format_loop (sz / 1024) units)"

definition format_bytes :: "int \<Rightarrow> string" where
  "format_bytes sz = format_loop (of_int sz) [''B'', ''KB'', ''MB'', ''GB'']"

text \<open>The five units, and the position the claim gives each size in that list.\<close>

definition unit_names :: "string list" where
  "unit_names = [''B'', ''KB'', ''MB'', ''GB'', ''TB'']"

definition unit_index :: "int \<Rightarrow> nat" where
  "unit_index sz =
     (if sz < 1024 then 0 else if sz < 1024 ^ 2 then 1 else if sz < 1024 ^ 3 then 2
      else if sz < 1024 ^ 4 then 3 else 4)"


text \<open>A number with two decimals: digits, a point, two digits.\<close>

definition is_digit :: "char \<Rightarrow> bool" where
  "is_digit c = (c \<in> set ''0123456789'')"

definition two_decimals :: "string \<Rightarrow> bool" where
  "two_decimals s =
     (case rev s of
        d2 # d1 # dot # ip \<Rightarrow>
          is_digit d2 \<and> is_digit d1 \<and> dot = CHR ''.'' \<and> ip \<noteq> [] \<and> list_all is_digit ip
      | _ \<Rightarrow> False)"

lemma is_digit_digit_char: "is_digit (digit_char d)"
proof -
  have "d mod 10 < length ''0123456789''" by simp
  then have "''0123456789'' ! (d mod 10) \<in> set ''0123456789''" by (rule nth_mem)
  then show ?thesis by (simp only: is_digit_def digit_char_def)
qed

lemma str_nat_digits: "str_nat n \<noteq> [] \<and> list_all is_digit (str_nat n)"
proof (induction n rule: str_nat.induct)
  case (1 n)
  show ?case
  proof (cases "n < 10")
    case True
    then show ?thesis by (simp add: str_nat.simps [of n] is_digit_digit_char)
  next
    case False
    with 1 show ?thesis by (simp add: str_nat.simps [of n] is_digit_digit_char)
  qed
qed

lemma two_decimals_fmt2f: "0 \<le> q \<Longrightarrow> two_decimals (fmt2f q)"
  using str_nat_digits [of "nat (round_half_even (\<bar>q\<bar> * 100)) div 100"]
  by (simp add: fmt2f_def two_decimals_def Let_def is_digit_digit_char)


lemma format_bytes_unit_index:
  "format_bytes sz = fmt2f (of_int sz / 1024 ^ unit_index sz) @ '' '' @ unit_names ! unit_index sz"
  by (simp add: format_bytes_def unit_index_def unit_names_def)

lemma unit_index_name: "unit_names ! unit_index sz \<in> set unit_names"
  by (simp add: unit_index_def unit_names_def)



section \<open>\<^verbatim>\<open>analyzers/overdraw.py\<close>\<close>

text \<open>
  One entry of \<^verbatim>\<open>high_overdraw_draws\<close>. The float \<^verbatim>\<open>overdraw\<close> is the rational number it
  stands for, as in \<^const>\<open>format_bytes\<close>.
\<close>

record high_draw =
  hd_eid :: int
  hd_overdraw :: rat
  hd_triangles :: int
  hd_instances :: int

text \<open>The attributes of an \<^verbatim>\<open>OverdrawAnalyzer\<close> instance.\<close>

record overdraw_state =
  od_total_triangles :: int
  od_total_vertices :: int
  od_total_instances :: int
  od_main_screen_pixels :: int
  od_high_overdraw_draws :: "high_draw list"

text \<open>\<^verbatim>\<open>self.MAX_DETAIL_RECORDS = 50\<close>, the same in the three iteration analyzers.\<close>

definition MAX_DETAIL_RECORDS :: nat where
  "MAX_DETAIL_RECORDS = 50"

text \<open>
  \<^verbatim>\<open>rt_resolutions\<close> is a \<^verbatim>\<open>defaultdict(int)\<close>; a Python dictionary keeps its keys in the
  order of their first insertion, which the later stable sort makes observable, so it is an
  association list.
\<close>

fun bump_resolution :: "int \<times> int \<Rightarrow> ((int \<times> int) \<times> int) list \<Rightarrow> ((int \<times> int) \<times> int) list" where
  "bump_resolution k [] = [(k, 1)]"
| "bump_resolution k ((k', c) # m) =
     (if k = k' then (k', c + 1) # m else (k', c) # bump_resolution k m)"

text \<open>
  \<^verbatim>\<open>_detect_main_resolution\<close>. \<open>color_target\<close> is \<^verbatim>\<open>int(rd.TextureCategory.ColorTarget)\<close>,
  or \<open>None\<close> when the module has no attribute \<^verbatim>\<open>TextureCategory\<close>. The result is the new
  value of \<^verbatim>\<open>self.main_screen_pixels\<close>, which stays 0 without a candidate.
\<close>

definition detect_main_resolution :: "int option \<Rightarrow> texture list \<Rightarrow> int" where
  "detect_main_resolution color_target textures =
     (let rt_resolutions =
            fold (\<lambda>tex m.
                    case tex_creationFlags tex of
                      None \<Rightarrow> m
                    | Some fl \<Rightarrow>
                        (case color_target of
                           None \<Rightarrow> m
                         | Some ct \<Rightarrow>
                             if has_flag fl ct then bump_resolution (tex_width tex, tex_height tex) m
                             else m))
                 textures [];
          candidates =
            filter (\<lambda>e. fst (fst e) \<ge> 256 \<and> snd (fst e) \<ge> 256 \<and> fst (fst e) \<noteq> snd (fst e))
              rt_resolutions
      in case sort_key (\<lambda>e. - snd e) candidates of
           [] \<Rightarrow> 0
         | e # _ \<Rightarrow> fst (fst e) * snd (fst e))"

text \<open>\<^verbatim>\<open>OverdrawAnalyzer.__init__\<close>.\<close>

definition overdraw_init :: "int option \<Rightarrow> texture list \<Rightarrow> overdraw_state" where
  "overdraw_init color_target textures =
     \<lparr>od_total_triangles = 0, od_total_vertices = 0, od_total_instances = 0,
      od_main_screen_pixels = detect_main_resolution color_target textures,
      od_high_overdraw_draws = []\<rparr>"

text \<open>
  \<^verbatim>\<open>action.numIndices if hasattr(action, 'numIndices') else 0\<close> and
  \<^verbatim>\<open>action.numInstances if hasattr(action, 'numInstances') else 1\<close>.
\<close>

definition num_verts_of :: "action \<Rightarrow> int" where
  "num_verts_of a = (case numIndices a of None \<Rightarrow> 0 | Some n \<Rightarrow> n)"

definition num_instances_of :: "action \<Rightarrow> int" where
  "num_instances_of a = (case numInstances a of None \<Rightarrow> 1 | Some n \<Rightarrow> n)"

text \<open>
  \<^verbatim>\<open>OverdrawAnalyzer.analyze_action\<close>; it never reads its argument \<^verbatim>\<open>pipe\<close>. Python's
  \<^verbatim>\<open>//\<close> rounds towards minus infinity, as \<open>div\<close> on \<^typ>\<open>int\<close> does.
\<close>

definition overdraw_analyze_action :: "action \<Rightarrow> overdraw_state \<Rightarrow> overdraw_state" where
  "overdraw_analyze_action a s =
     (let num_verts = num_verts_of a;
          num_instances = num_instances_of a;
          s1 = s\<lparr>od_total_vertices := od_total_vertices s + num_verts * num_instances\<rparr>;
          s2 = s1\<lparr>od_total_instances := od_total_instances s1 + num_instances\<rparr>;
          triangles = (num_verts div 3) * num_instances;
          s3 = s2\<lparr>od_total_triangles := od_total_triangles s2 + triangles\<rparr>
      in if od_main_screen_pixels s3 > 0 \<and> triangles > 0 then
           (let estimated_pixels = triangles * 100;
                overdraw = (of_int estimated_pixels :: rat) / of_int (od_main_screen_pixels s3)
            in if overdraw > 3 \<and> length (od_high_overdraw_draws s3) < MAX_DETAIL_RECORDS
               then s3\<lparr>od_high_overdraw_draws := od_high_overdraw_draws s3 @
                      [\<lparr>hd_eid = eventId a, hd_overdraw = overdraw, hd_triangles = triangles,
                        hd_instances = num_instances\<rparr>]\<rparr>
               else s3)
         else s3)"

text \<open>\<^verbatim>\<open>OverdrawAnalyzer.finalize\<close>.\<close>

definition overdraw_finalize :: "overdraw_state \<Rightarrow> overdraw_state" where
  "overdraw_finalize s = s\<lparr>od_high_overdraw_draws := sort_desc hd_overdraw (od_high_overdraw_draws s)\<rparr>"

text \<open>The dictionary returned by \<^verbatim>\<open>OverdrawAnalyzer.analyze\<close>.\<close>

record overdraw_results =
  or_total_triangles :: int
  or_total_vertices :: int
  or_total_instances :: int
  or_main_screen_pixels :: int
  or_avg_overdraw :: rat
  or_high_overdraw_draws :: "high_draw list"

definition overdraw_analyze :: "overdraw_state \<Rightarrow> overdraw_results" where
  "overdraw_analyze s =
     (let avg_overdraw =
            (if od_main_screen_pixels s > 0
             then (let estimated_total_pixels = od_total_triangles s * 100
                   in of_int estimated_total_pixels / of_int (od_main_screen_pixels s))
             else 0)
      in \<lparr>or_total_triangles = od_total_triangles s,
          or_total_vertices = od_total_vertices s,
          or_total_instances = od_total_instances s,
          or_main_screen_pixels = od_main_screen_pixels s,
          or_avg_overdraw = avg_overdraw,
          or_high_overdraw_draws = take 10 (od_high_overdraw_draws s)\<rparr>)"

text \<open>The triangles the claim attributes to one action.\<close>

definition triangles_of :: "action \<Rightarrow> int" where
  "triangles_of a = (num_verts_of a div 3) * num_instances_of a"

lemma overdraw_analyze_action_fields:
  "od_total_triangles (overdraw_analyze_action a s) = od_total_triangles s + triangles_of a"
  "od_main_screen_pixels (overdraw_analyze_action a s) = od_main_screen_pixels s"
  by (simp_all add: overdraw_analyze_action_def triangles_of_def Let_def)

lemma fold_overdraw_analyze_action_fields:
  "od_total_triangles (fold overdraw_analyze_action as s) =
     od_total_triangles s + sum_list (map triangles_of as)"
  "od_main_screen_pixels (fold overdraw_analyze_action as s) = od_main_screen_pixels s"
  by (induction as arbitrary: s) (simp_all add: overdraw_analyze_action_fields)


section \<open>Calls into the replay engine\<close>

text \<open>
  A call into the replay engine either raises or returns: \<open>Inl\<close> carries the exception,
  \<open>Inr\<close> the value. An exception is known by its message \<^verbatim>\<open>str(e)\<close>; it is an instance of
  \<^verbatim>\<open>Exception\<close>, which is what the handlers of the scheduler catch.
\<close>

datatype exn = Exception (message: string)

section \<open>\<^verbatim>\<open>analyzers/vertex_attrs.py\<close>\<close>

text \<open>
  An entry of \<^verbatim>\<open>vs_refl.inputSignature\<close>, a resource format and an input-assembly
  attribute, with the attributes that \<^verbatim>\<open>analyze_action\<close> guards by \<^verbatim>\<open>hasattr\<close>.
\<close>

record sig_param =
  sig_semanticName :: "string option"
  sig_semanticIndex :: "int option"

record resource_format =
  compByteWidth :: "int option"
  compCount :: "int option"

record vertex_attr =
  attr_semanticName :: "string option"
  attr_semanticIndex :: "int option"
  attr_format :: "resource_format option"

record ia_state =
  ia_attributes :: "vertex_attr list option"

text \<open>
  What \<^verbatim>\<open>VertexAttributeAnalyzer\<close> asks of the pipeline state.
  \<open>GetShaderReflection_Vertex\<close> is the call \<^verbatim>\<open>pipe.GetShaderReflection(rd.ShaderStage.Vertex)\<close>:
  it raises, returns \<^verbatim>\<open>None\<close>, or returns a reflection, of which only \<^verbatim>\<open>inputSignature\<close> is
  read. \<open>GetIAState\<close> is \<open>None\<close> when the object has no such method; otherwise the call
  raises, returns \<^verbatim>\<open>None\<close> or returns the input-assembly state.
\<close>

record vertex_pipe =
  GetShaderReflection_Vertex :: "exn + sig_param list option"
  GetIAState :: "(exn + ia_state option) option"

record semantic_stat =
  ss_provided :: int
  ss_used :: int
  ss_wasted :: int

record worst_vertex_draw =
  wv_eid :: int
  wv_vertices :: int
  wv_wasted_bytes :: int
  wv_wasted_attrs :: "string list"

text \<open>The attributes of a \<^verbatim>\<open>VertexAttributeAnalyzer\<close> instance.\<close>

record vertex_state =
  va_total_draws :: int
  va_wasted_draws :: int
  va_wasted_bytes :: int
  va_wasted_vertices :: int
  va_semantic_stats :: "string \<rightharpoonup> semantic_stat"
  va_worst_draws :: "worst_vertex_draw list"

definition vertex_init :: vertex_state where
  "vertex_init = \<lparr>va_total_draws = 0, va_wasted_draws = 0, va_wasted_bytes = 0,
     va_wasted_vertices = 0, va_semantic_stats = Map.empty, va_worst_draws = []\<rparr>"

text \<open>
  \<^verbatim>\<open>self.semantic_stats[sem_name][key] += 1\<close> on the \<^verbatim>\<open>defaultdict\<close>, whose missing entries
  start with three zeros.
\<close>

definition stat_of :: "(string \<rightharpoonup> semantic_stat) \<Rightarrow> string \<Rightarrow> semantic_stat" where
  "stat_of m k = (case m k of None \<Rightarrow> \<lparr>ss_provided = 0, ss_used = 0, ss_wasted = 0\<rparr> | Some e \<Rightarrow> e)"

definition bump_used :: "string \<Rightarrow> (string \<rightharpoonup> semantic_stat) \<Rightarrow> (string \<rightharpoonup> semantic_stat)" where
  "bump_used k m = m(k \<mapsto> (stat_of m k)\<lparr>ss_used := ss_used (stat_of m k) + 1\<rparr>)"

definition bump_provided :: "string \<Rightarrow> (string \<rightharpoonup> semantic_stat) \<Rightarrow> (string \<rightharpoonup> semantic_stat)" where
  "bump_provided k m = m(k \<mapsto> (stat_of m k)\<lparr>ss_provided := ss_provided (stat_of m k) + 1\<rparr>)"

definition bump_wasted :: "string \<Rightarrow> (string \<rightharpoonup> semantic_stat) \<Rightarrow> (string \<rightharpoonup> semantic_stat)" where
  "bump_wasted k m = m(k \<mapsto> (stat_of m k)\<lparr>ss_wasted := ss_wasted (stat_of m k) + 1\<rparr>)"

text \<open>\<^verbatim>\<open>f"{sem_name}{sem_idx}"\<close>, with \<^verbatim>\<open>sem_idx\<close> 0 when the attribute \<^verbatim>\<open>semanticIndex\<close> is absent.\<close>

definition full_name :: "string \<Rightarrow> int option \<Rightarrow> string" where
  "full_name sem_name idx = sem_name @ str_int (case idx of None \<Rightarrow> 0 | Some i \<Rightarrow> i)"

text \<open>
  The body of \<^verbatim>\<open>for sig in vs_refl.inputSignature\<close>; the state is the set
  \<^verbatim>\<open>used_semantics\<close> and the statistics.
\<close>

definition sig_step ::
  "sig_param \<Rightarrow> string set \<times> (string \<rightharpoonup> semantic_stat) \<Rightarrow> string set \<times> (string \<rightharpoonup> semantic_stat)" where
  "sig_step sg st =
     (case sig_semanticName sg of
        None \<Rightarrow> st
      | Some sem_name \<Rightarrow>
          (insert (full_name sem_name (sig_semanticIndex sg)) (fst st), bump_used sem_name (snd st)))"

text \<open>The byte size of a wasted attribute: 4 unless the format gives both of its factors.\<close>

definition byte_size_of :: "vertex_attr \<Rightarrow> int" where
  "byte_size_of attr =
     (case attr_format attr of
        None \<Rightarrow> 4
      | Some fmt \<Rightarrow>
          (case compByteWidth fmt of
             None \<Rightarrow> 4
           | Some w \<Rightarrow> (case compCount fmt of None \<Rightarrow> 4 | Some c \<Rightarrow> w * c)))"

text \<open>
  The body of \<^verbatim>\<open>for attr in attrs\<close>; the state is the list \<^verbatim>\<open>wasted_attrs\<close>, the sum
  \<^verbatim>\<open>wasted_bytes_per_vertex\<close> and the statistics.
\<close>

definition attr_step ::
  "string set \<Rightarrow> vertex_attr \<Rightarrow> (string \<times> int) list \<times> int \<times> (string \<rightharpoonup> semantic_stat)
     \<Rightarrow> (string \<times> int) list \<times> int \<times> (string \<rightharpoonup> semantic_stat)" where
  "attr_step used_semantics attr st =
     (case attr_semanticName attr of
        None \<Rightarrow> st
      | Some sem_name \<Rightarrow>
          (let wasted_attrs = fst st; wasted_bytes_per_vertex = fst (snd st);
               stats = bump_provided sem_name (snd (snd st))
           in if full_name sem_name (attr_semanticIndex attr) \<notin> used_semantics
              then (wasted_attrs @ [(sem_name, byte_size_of attr)],
                    wasted_bytes_per_vertex + byte_size_of attr,
                    bump_wasted sem_name stats)
              else (wasted_attrs, wasted_bytes_per_vertex, stats)))"

text \<open>The block under \<^verbatim>\<open>if wasted_attrs:\<close>.\<close>

definition record_waste ::
  "action \<Rightarrow> (string \<times> int) list \<Rightarrow> int \<Rightarrow> vertex_state \<Rightarrow> vertex_state" where
  "record_waste a wasted_attrs wasted_bytes_per_vertex s =
     (if wasted_attrs \<noteq> [] then
        (let s1 = s\<lparr>va_wasted_draws := va_wasted_draws s + 1\<rparr>;
             num_verts = num_verts_of a;
             num_instances = num_instances_of a;
             total_verts = num_verts * num_instances;
             wasted = wasted_bytes_per_vertex * total_verts;
             s2 = s1\<lparr>va_wasted_bytes := va_wasted_bytes s1 + wasted\<rparr>;
             s3 = s2\<lparr>va_wasted_vertices := va_wasted_vertices s2 + total_verts\<rparr>
         in if wasted > 100 * 1024 \<and> length (va_worst_draws s3) < MAX_DETAIL_RECORDS
            then s3\<lparr>va_worst_draws := va_worst_draws s3 @
                   [\<lparr>wv_eid = eventId a, wv_vertices = total_verts, wv_wasted_bytes = wasted,
                     wv_wasted_attrs = map fst wasted_attrs\<rparr>]\<rparr>
            else s3)
      else s)"

text \<open>
  \<^verbatim>\<open>VertexAttributeAnalyzer.analyze_action\<close>. Each \<^verbatim>\<open>return\<close> of the source, also those of
  the two bare \<^verbatim>\<open>except:\<close> handlers, leaves with the state reached so far.
\<close>

definition vertex_analyze_action :: "action \<Rightarrow> vertex_pipe \<Rightarrow> vertex_state \<Rightarrow> vertex_state" where
  "vertex_analyze_action a pipe s0 =
     (let s = s0\<lparr>va_total_draws := va_total_draws s0 + 1\<rparr>
      in case GetShaderReflection_Vertex pipe of
           Inl e \<Rightarrow> s
         | Inr None \<Rightarrow> s
         | Inr (Some inputSignature) \<Rightarrow>
             (let st = fold sig_step inputSignature ({}, va_semantic_stats s);
                  used_semantics = fst st;
                  s1 = s\<lparr>va_semantic_stats := snd st\<rparr>
              in case GetIAState pipe of
                   None \<Rightarrow> s1
                 | Some (Inl e) \<Rightarrow> s1
                 | Some (Inr None) \<Rightarrow> s1
                 | Some (Inr (Some ia)) \<Rightarrow>
                     (let attrs = (case ia_attributes ia of None \<Rightarrow> [] | Some xs \<Rightarrow> xs);
                          w = fold (attr_step used_semantics) attrs ([], 0, va_semantic_stats s1);
                          s2 = s1\<lparr>va_semantic_stats := snd (snd w)\<rparr>
                      in record_waste a (fst w) (fst (snd w)) s2)))"

text \<open>\<^verbatim>\<open>VertexAttributeAnalyzer.finalize\<close> and the dictionary returned by \<^verbatim>\<open>analyze\<close>.\<close>

definition vertex_finalize :: "vertex_state \<Rightarrow> vertex_state" where
  "vertex_finalize s = s\<lparr>va_worst_draws := sort_desc wv_wasted_bytes (va_worst_draws s)\<rparr>"

record vertex_results =
  vr_total_draws :: int
  vr_wasted_draws :: int
  vr_wasted_bytes :: int
  vr_wasted_vertices :: int
  vr_semantic_stats :: "string \<rightharpoonup> semantic_stat"
  vr_worst_draws :: "worst_vertex_draw list"

definition vertex_analyze :: "vertex_state \<Rightarrow> vertex_results" where
  "vertex_analyze s =
     \<lparr>vr_total_draws = va_total_draws s, vr_wasted_draws = va_wasted_draws s,
      vr_wasted_bytes = va_wasted_bytes s, vr_wasted_vertices = va_wasted_vertices s,
      vr_semantic_stats = va_semantic_stats s, vr_worst_draws = take 10 (va_worst_draws s)\<rparr>"

text \<open>
  The words of the claim: the names that appear among the entries of the vertex shader's
  input signature, and the attributes whose name is not among them.
\<close>

definition signature_names :: "sig_param list \<Rightarrow> string set" where
  "signature_names sigs =
     set (concat (map (\<lambda>sg. case sig_semanticName sg of
                               None \<Rightarrow> []
                             | Some n \<Rightarrow> [full_name n (sig_semanticIndex sg)]) sigs))"

definition attr_wasted :: "sig_param list \<Rightarrow> vertex_attr \<Rightarrow> bool" where
  "attr_wasted sigs attr =
     (case attr_semanticName attr of
        None \<Rightarrow> False
      | Some n \<Rightarrow> full_name n (attr_semanticIndex attr) \<notin> signature_names sigs)"

definition attrs_of :: "ia_state \<Rightarrow> vertex_attr list" where
  "attrs_of ia = (case ia_attributes ia of None \<Rightarrow> [] | Some xs \<Rightarrow> xs)"

definition wasted_count :: "(string \<rightharpoonup> semantic_stat) \<Rightarrow> string \<Rightarrow> int" where
  "wasted_count m k = ss_wasted (stat_of m k)"

lemma fold_sig_step_fst:
  "fst (fold sig_step sigs st) = fst st \<union> signature_names sigs"
proof (induction sigs arbitrary: st)
  case Nil
  then show ?case by (simp add: signature_names_def)
next
  case (Cons sg sigs)
  then show ?case
    by (auto simp: sig_step_def signature_names_def split: option.splits)
qed

lemma wasted_count_bump [simp]:
  "wasted_count (bump_used k m) n = wasted_count m n"
  "wasted_count (bump_provided k m) n = wasted_count m n"
  "wasted_count (bump_wasted k m) n = wasted_count m n + (if k = n then 1 else 0)"
  by (simp_all add: wasted_count_def stat_of_def bump_used_def bump_provided_def bump_wasted_def)

lemma fold_sig_step_wasted:
  "wasted_count (snd (fold sig_step sigs st)) n = wasted_count (snd st) n"
  by (induction sigs arbitrary: st) (simp_all add: sig_step_def split: option.splits)

definition name_of :: "vertex_attr \<Rightarrow> string" where
  "name_of attr = (case attr_semanticName attr of None \<Rightarrow> [] | Some n \<Rightarrow> n)"

lemma fold_attr_step:
  assumes "used = signature_names sigs"
  shows "fst (fold (attr_step used) attrs st) =
           fst st @ map (\<lambda>x. (name_of x, byte_size_of x)) (filter (attr_wasted sigs) attrs)"
    and "fst (snd (fold (attr_step used) attrs st)) =
           fst (snd st) + sum_list (map byte_size_of (filter (attr_wasted sigs) attrs))"
    and "wasted_count (snd (snd (fold (attr_step used) attrs st))) n =
           wasted_count (snd (snd st)) n +
             int (length (filter (\<lambda>x. attr_semanticName x = Some n) (filter (attr_wasted sigs) attrs)))"
  using assms
  by (induction attrs arbitrary: st;
      simp add: attr_step_def attr_wasted_def name_of_def Let_def split: option.splits)+

lemma record_waste_fields:
  "va_wasted_bytes (record_waste a w b s) =
     va_wasted_bytes s + (if w = [] then 0 else b * (num_verts_of a * num_instances_of a))"
  "va_wasted_draws (record_waste a w b s) = va_wasted_draws s + (if w = [] then 0 else 1)"
  "va_semantic_stats (record_waste a w b s) = va_semantic_stats s"
  by (simp_all add: record_waste_def Let_def)

text \<open>
  Claim C5. When the vertex shader's reflection and the input-assembly state are available,
  \<^verbatim>\<open>VertexAttributeAnalyzer.analyze_action\<close> counts an attribute of the draw as wasted exactly
  when the string \<^verbatim>\<open>semanticName + semanticIndex\<close> of the attribute is not among those of
  the entries of the vertex shader's \<^verbatim>\<open>inputSignature\<close>: the counter
  \<^verbatim>\<open>semantic_stats[name]['wasted']\<close> grows by the number of such attributes called \<open>name\<close>.
  For a draw with at least one wasted attribute, \<^verbatim>\<open>wasted_bytes\<close> grows by exactly the sum
  over the wasted attributes of \<^verbatim>\<open>compByteWidth * compCount\<close> (4 when the format is
  unavailable) times \<^verbatim>\<open>numIndices * numInstances\<close> of the action, and \<^verbatim>\<open>wasted_draws\<close> by
  one; for a draw without any, neither changes.
\<close>

theorem vertex_analyze_action_waste:
  assumes "GetShaderReflection_Vertex pipe = Inr (Some sigs)"
    and "GetIAState pipe = Some (Inr (Some ia))"
  shows "wasted_count (va_semantic_stats (vertex_analyze_action a pipe s)) n =
           wasted_count (va_semantic_stats s) n +
             int (length (filter (\<lambda>x. attr_semanticName x = Some n)
                    (filter (attr_wasted sigs) (attrs_of ia)))) \<and>
         va_wasted_bytes (vertex_analyze_action a pipe s) =
           va_wasted_bytes s +
             (if filter (attr_wasted sigs) (attrs_of ia) = [] then 0
              else sum_list (map byte_size_of (filter (attr_wasted sigs) (attrs_of ia))) *
                     (num_verts_of a * num_instances_of a)) \<and>
         va_wasted_draws (vertex_analyze_action a pipe s) =
           va_wasted_draws s + (if filter (attr_wasted sigs) (attrs_of ia) = [] then 0 else 1)"
proof -
  let ?st = "fold sig_step sigs ({}, va_semantic_stats (s\<lparr>va_total_draws := va_total_draws s + 1\<rparr>))"
  have used: "fst ?st = signature_names sigs"
    by (simp add: fold_sig_step_fst)
  have w0: "wasted_count (snd ?st) n = wasted_count (va_semantic_stats s) n"
    by (simp add: fold_sig_step_wasted)
  note fa = fold_attr_step [OF used, of "attrs_of ia" "([], 0, snd ?st)"]
  show ?thesis
    using assms w0 fa
    by (simp add: vertex_analyze_action_def Let_def record_waste_fields attrs_of_def)
qed


text \<open>
  A draw of 6 indices and 2 instances whose vertex shader reads \<^verbatim>\<open>POSITION0\<close> only, while the
  input assembly provides \<^verbatim>\<open>POSITION0\<close>, \<^verbatim>\<open>TEXCOORD1\<close> (two components of 4 bytes) and
  \<^verbatim>\<open>COLOR\<close> (no index, no format): \<open>(8 + 4) * 12 = 144\<close> bytes are wasted.
\<close>

definition example_pipe :: vertex_pipe where
  "example_pipe =
     \<lparr>GetShaderReflection_Vertex =
        Inr (Some [\<lparr>sig_semanticName = Some ''POSITION'', sig_semanticIndex = Some 0\<rparr>]),
      GetIAState = Some (Inr (Some \<lparr>ia_attributes = Some
        [\<lparr>attr_semanticName = Some ''POSITION'', attr_semanticIndex = Some 0,
           attr_format = Some \<lparr>compByteWidth = Some 4, compCount = Some 3\<rparr>\<rparr>,
         \<lparr>attr_semanticName = Some ''TEXCOORD'', attr_semanticIndex = Some 1,
           attr_format = Some \<lparr>compByteWidth = Some 4, compCount = Some 2\<rparr>\<rparr>,
         \<lparr>attr_semanticName = Some ''COLOR'', attr_semanticIndex = None,
           attr_format = None\<rparr>]\<rparr>))\<rparr>"

theorem vertex_analyze_action_waste_witness:
  "GetShaderReflection_Vertex example_pipe =
     Inr (Some [\<lparr>sig_semanticName = Some ''POSITION'', sig_semanticIndex = Some 0\<rparr>]) \<and>
   (\<exists>ia. GetIAState example_pipe = Some (Inr (Some ia))) \<and>
   va_wasted_bytes (vertex_analyze_action (Action 2 7 (Some 6) (Some 2) []) example_pipe vertex_init) = 144 \<and>
   va_wasted_draws (vertex_analyze_action (Action 2 7 (Some 6) (Some 2) []) example_pipe vertex_init) = 1 \<and>
   wasted_count (va_semantic_stats
     (vertex_analyze_action (Action 2 7 (Some 6) (Some 2) []) example_pipe vertex_init)) ''COLOR'' = 1"
proof -
  have d: "str_int 0 = ''0''" "str_int 1 = ''1''"
    by (simp_all add: str_int_def str_nat.simps digit_char_def)
  show ?thesis
    using vertex_analyze_action_waste [of example_pipe
        "[\<lparr>sig_semanticName = Some ''POSITION'', sig_semanticIndex = Some 0\<rparr>]"
        "the (projr (the (GetIAState example_pipe)))"
        "Action 2 7 (Some 6) (Some 2) []" vertex_init "''COLOR''"]
    by (simp add: example_pipe_def attrs_of_def attr_wasted_def signature_names_def full_name_def d
        byte_size_of_def num_verts_of_def num_instances_of_def vertex_init_def wasted_count_def
        stat_of_def)
qed

section \<open>\<^verbatim>\<open>analyzers/shader_bindings.py\<close>\<close>

datatype shader_stage = Vertex | Pixel | Geometry | Hull | Domain

text \<open>A resource id is compared with \<^verbatim>\<open>rd.ResourceId.Null()\<close> only.\<close>

datatype resource_id = Null | ResourceId int

text \<open>
  A bound descriptor as \<^verbatim>\<open>analyze_action\<close> reads it. \<open>b_descriptor\<close> is \<open>None\<close> when the
  binding has no attribute \<^verbatim>\<open>descriptor\<close>; otherwise reading
  \<^verbatim>\<open>binding.descriptor.resource\<close> raises or gives a resource id. \<open>b_access\<close> is \<open>None\<close> when
  the binding has no attribute \<^verbatim>\<open>access\<close>, and \<open>staticallyUnused\<close> is \<open>None\<close> when
  \<^verbatim>\<open>getattr\<close> falls back to its default \<^verbatim>\<open>False\<close>.
\<close>

record access_info =
  staticallyUnused :: "bool option"

record binding =
  b_descriptor :: "(exn + resource_id) option"
  b_access :: "access_info option"

text \<open>The four calls \<^verbatim>\<open>ShaderBindingAnalyzer\<close> makes on the pipeline state, each per stage.\<close>

record shader_pipe =
  GetShader :: "shader_stage \<Rightarrow> exn + resource_id"
  GetReadOnlyResources :: "shader_stage \<Rightarrow> exn + binding list"
  GetReadWriteResources :: "shader_stage \<Rightarrow> exn + binding list"
  GetConstantBlocks :: "shader_stage \<Rightarrow> exn + binding list"

record binding_stat =
  bs_total :: int
  bs_unused :: int

record worst_binding_draw =
  wb_eid :: int
  wb_unused_count :: int

text \<open>The attributes of a \<^verbatim>\<open>ShaderBindingAnalyzer\<close> instance.\<close>

record shader_state =
  sb_total_bindings :: int
  sb_unused_bindings :: int
  sb_binding_stats :: "string \<rightharpoonup> binding_stat"
  sb_draws_with_waste :: int
  sb_total_draws :: int
  sb_worst_draws :: "worst_binding_draw list"

definition shader_init :: shader_state where
  "shader_init = \<lparr>sb_total_bindings = 0, sb_unused_bindings = 0, sb_binding_stats = Map.empty,
     sb_draws_with_waste = 0, sb_total_draws = 0, sb_worst_draws = []\<rparr>"

definition binding_stat_of :: "(string \<rightharpoonup> binding_stat) \<Rightarrow> string \<Rightarrow> binding_stat" where
  "binding_stat_of m k = (case m k of None \<Rightarrow> \<lparr>bs_total = 0, bs_unused = 0\<rparr> | Some e \<Rightarrow> e)"

definition bump_total :: "string \<Rightarrow> (string \<rightharpoonup> binding_stat) \<Rightarrow> (string \<rightharpoonup> binding_stat)" where
  "bump_total k m = m(k \<mapsto> (binding_stat_of m k)\<lparr>bs_total := bs_total (binding_stat_of m k) + 1\<rparr>)"

definition bump_unused :: "string \<Rightarrow> (string \<rightharpoonup> binding_stat) \<Rightarrow> (string \<rightharpoonup> binding_stat)" where
  "bump_unused k m = m(k \<mapsto> (binding_stat_of m k)\<lparr>bs_unused := bs_unused (binding_stat_of m k) + 1\<rparr>)"

text \<open>
  \<^verbatim>\<open>getattr(binding.access, 'staticallyUnused', False)\<close> under \<^verbatim>\<open>hasattr(binding, 'access')\<close>.
\<close>

definition statically_unused :: "binding \<Rightarrow> bool" where
  "statically_unused b =
     (case b_access b of
        None \<Rightarrow> False
      | Some acc \<Rightarrow> (case staticallyUnused acc of None \<Rightarrow> False | Some u \<Rightarrow> u))"

text \<open>
  Each of the three \<^verbatim>\<open>for binding in ...\<close> iterations, for the kind \<^verbatim>\<open>'SRV'\<close>, \<^verbatim>\<open>'UAV'\<close> or
  \<^verbatim>\<open>'CBV'\<close>; the state is the analyzer and the local \<^verbatim>\<open>draw_unused\<close>. An exception raised
  by a binding leaves the loop for the handler \<^verbatim>\<open>except: pass\<close>, with what was counted
  before it.
\<close>

fun count_bindings :: "string \<Rightarrow> binding list \<Rightarrow> shader_state \<times> int \<Rightarrow> shader_state \<times> int" where
  "count_bindings kind [] st = st"
| "count_bindings kind (b # bs) st =
     (case b_descriptor b of
        None \<Rightarrow> count_bindings kind bs st
      | Some (Inl e) \<Rightarrow> st
      | Some (Inr res) \<Rightarrow>
          if res = Null then count_bindings kind bs st
          else
            (let s = fst st; draw_unused = snd st;
                 s1 = s\<lparr>sb_total_bindings := sb_total_bindings s + 1\<rparr>;
                 s2 = s1\<lparr>sb_binding_stats := bump_total kind (sb_binding_stats s1)\<rparr>
             in if statically_unused b
                then (let s3 = s2\<lparr>sb_unused_bindings := sb_unused_bindings s2 + 1\<rparr>;
                          s4 = s3\<lparr>sb_binding_stats := bump_unused kind (sb_binding_stats s3)\<rparr>
                      in count_bindings kind bs (s4, draw_unused + 1))
                else count_bindings kind bs (s2, draw_unused)))"

text \<open>A \<^verbatim>\<open>try\<close> block around the call that fetches the bindings and the loop over them.\<close>

definition try_bindings ::
  "string \<Rightarrow> exn + binding list \<Rightarrow> shader_state \<times> int \<Rightarrow> shader_state \<times> int" where
  "try_bindings kind call st = (case call of Inl e \<Rightarrow> st | Inr bs \<Rightarrow> count_bindings kind bs st)"

text \<open>The body of \<^verbatim>\<open>for stage in stages\<close>.\<close>

definition stage_step :: "shader_pipe \<Rightarrow> shader_stage \<Rightarrow> shader_state \<times> int \<Rightarrow> shader_state \<times> int" where
  "stage_step pipe stage st =
     (case GetShader pipe stage of
        Inl e \<Rightarrow> st
      | Inr shader \<Rightarrow>
          if shader = Null then st
          else
            (let st1 = try_bindings ''SRV'' (GetReadOnlyResources pipe stage) st;
                 st2 = try_bindings ''UAV'' (GetReadWriteResources pipe stage) st1
             in try_bindings ''CBV'' (GetConstantBlocks pipe stage) st2))"

text \<open>\<^verbatim>\<open>ShaderBindingAnalyzer.analyze_action\<close>.\<close>

definition shader_analyze_action :: "action \<Rightarrow> shader_pipe \<Rightarrow> shader_state \<Rightarrow> shader_state" where
  "shader_analyze_action a pipe s0 =
     (let s = s0\<lparr>sb_total_draws := sb_total_draws s0 + 1\<rparr>;
          st = fold (stage_step pipe) [Vertex, Pixel, Geometry, Hull, Domain] (s, 0);
          s1 = fst st; draw_unused = snd st
      in if draw_unused > 0 then
           (let s2 = s1\<lparr>sb_draws_with_waste := sb_draws_with_waste s1 + 1\<rparr>
            in if draw_unused \<ge> 3 \<and> length (sb_worst_draws s2) < MAX_DETAIL_RECORDS
               then s2\<lparr>sb_worst_draws := sb_worst_draws s2 @
                      [\<lparr>wb_eid = eventId a, wb_unused_count = draw_unused\<rparr>]\<rparr>
               else s2)
         else s1)"

text \<open>\<^verbatim>\<open>ShaderBindingAnalyzer.finalize\<close> and the dictionary returned by \<^verbatim>\<open>analyze\<close>.\<close>

definition shader_finalize :: "shader_state \<Rightarrow> shader_state" where
  "shader_finalize s = s\<lparr>sb_worst_draws := sort_desc wb_unused_count (sb_worst_draws s)\<rparr>"

record shader_results =
  sr_total_bindings :: int
  sr_unused_bindings :: int
  sr_binding_stats :: "string \<rightharpoonup> binding_stat"
  sr_total_draws :: int
  sr_draws_with_waste :: int
  sr_worst_draws :: "worst_binding_draw list"

definition shader_analyze :: "shader_state \<Rightarrow> shader_results" where
  "shader_analyze s =
     \<lparr>sr_total_bindings = sb_total_bindings s, sr_unused_bindings = sb_unused_bindings s,
      sr_binding_stats = sb_binding_stats s, sr_total_draws = sb_total_draws s,
      sr_draws_with_waste = sb_draws_with_waste s, sr_worst_draws = take 10 (sb_worst_draws s)\<rparr>"

section \<open>The detail records stay bounded\<close>

text \<open>
  A call the scheduler makes on an iteration analyzer while it collects: \<^verbatim>\<open>analyze_action\<close>
  on an action and a pipeline state, or \<^verbatim>\<open>finalize\<close>.
\<close>

datatype 'p call = AnalyzeAction action 'p | Finalize

fun vertex_call :: "vertex_pipe call \<Rightarrow> vertex_state \<Rightarrow> vertex_state" where
  "vertex_call (AnalyzeAction a p) s = vertex_analyze_action a p s"
| "vertex_call Finalize s = vertex_finalize s"

fun shader_call :: "shader_pipe call \<Rightarrow> shader_state \<Rightarrow> shader_state" where
  "shader_call (AnalyzeAction a p) s = shader_analyze_action a p s"
| "shader_call Finalize s = shader_finalize s"

fun overdraw_call :: "'p call \<Rightarrow> overdraw_state \<Rightarrow> overdraw_state" where
  "overdraw_call (AnalyzeAction a p) s = overdraw_analyze_action a s"
| "overdraw_call Finalize s = overdraw_finalize s"

lemma length_sort_desc [simp]: "length (sort_desc key xs) = length xs"
  by (simp add: sort_desc_def)

lemma count_bindings_worst [simp]:
  "sb_worst_draws (fst (count_bindings kind bs st)) = sb_worst_draws (fst st)"
  by (induction kind bs st rule: count_bindings.induct)
     (simp_all add: Let_def split: option.splits sum.splits)

lemma stage_step_worst [simp]:
  "sb_worst_draws (fst (stage_step pipe stage st)) = sb_worst_draws (fst st)"
  by (simp add: stage_step_def try_bindings_def Let_def split: sum.splits)

lemma fold_stage_step_worst [simp]:
  "sb_worst_draws (fst (fold (stage_step pipe) stages st)) = sb_worst_draws (fst st)"
  by (induction stages arbitrary: st) simp_all

lemma vertex_call_bounded:
  "length (va_worst_draws s) \<le> MAX_DETAIL_RECORDS \<Longrightarrow>
   length (va_worst_draws (vertex_call c s)) \<le> MAX_DETAIL_RECORDS"
  by (cases c)
     (auto simp: vertex_analyze_action_def vertex_finalize_def record_waste_def Let_def
        split: sum.splits option.splits)

lemma shader_call_bounded:
  "length (sb_worst_draws s) \<le> MAX_DETAIL_RECORDS \<Longrightarrow>
   length (sb_worst_draws (shader_call c s)) \<le> MAX_DETAIL_RECORDS"
proof (cases c)
  case (AnalyzeAction a p)
  assume "length (sb_worst_draws s) \<le> MAX_DETAIL_RECORDS"
  then show ?thesis
    unfolding AnalyzeAction shader_call.simps shader_analyze_action_def Let_def
    by (simp del: fold_simps)
next
  case Finalize
  assume "length (sb_worst_draws s) \<le> MAX_DETAIL_RECORDS"
  then show ?thesis by (simp add: Finalize shader_finalize_def)
qed

lemma overdraw_call_bounded:
  "length (od_high_overdraw_draws s) \<le> MAX_DETAIL_RECORDS \<Longrightarrow>
   length (od_high_overdraw_draws (overdraw_call c s)) \<le> MAX_DETAIL_RECORDS"
  by (cases c) (auto simp: overdraw_analyze_action_def overdraw_finalize_def Let_def)

lemma fold_vertex_call_bounded:
  "length (va_worst_draws s) \<le> MAX_DETAIL_RECORDS \<Longrightarrow>
   length (va_worst_draws (fold vertex_call cs s)) \<le> MAX_DETAIL_RECORDS"
  by (induction cs arbitrary: s) (simp_all add: vertex_call_bounded)

lemma fold_shader_call_bounded:
  "length (sb_worst_draws s) \<le> MAX_DETAIL_RECORDS \<Longrightarrow>
   length (sb_worst_draws (fold shader_call cs s)) \<le> MAX_DETAIL_RECORDS"
  by (induction cs arbitrary: s) (simp_all add: shader_call_bounded)

lemma fold_overdraw_call_bounded:
  "length (od_high_overdraw_draws s) \<le> MAX_DETAIL_RECORDS \<Longrightarrow>
   length (od_high_overdraw_draws (fold overdraw_call cs s)) \<le> MAX_DETAIL_RECORDS"
  by (induction cs arbitrary: s) (simp_all add: overdraw_call_bounded)

lemma sort_desc_descending: "sorted (rev (map key (sort_desc key xs)))"
  by (simp add: sort_desc_def rev_map)

lemma set_sort_desc: "set (sort_desc key xs) = set xs"
  by (simp add: sort_desc_def)

text \<open>
  Claim C9. After any sequence of \<^verbatim>\<open>analyze_action\<close> calls (and of \<^verbatim>\<open>finalize\<close> calls
  between or after them) on a fresh analyzer, \<^verbatim>\<open>worst_draws\<close> of
  \<^verbatim>\<open>VertexAttributeAnalyzer\<close> and of \<^verbatim>\<open>ShaderBindingAnalyzer\<close> and \<^verbatim>\<open>high_overdraw_draws\<close> of
  \<^verbatim>\<open>OverdrawAnalyzer\<close> hold at most \<^verbatim>\<open>MAX_DETAIL_RECORDS\<close>, that is 50, records, and the
  dictionary returned by \<^verbatim>\<open>analyze\<close> exposes at most 10 of them: the first ten of the list,
  which are the ten largest once \<^verbatim>\<open>finalize\<close> has sorted it into descending order.
\<close>

theorem detail_records_bounded:
  "MAX_DETAIL_RECORDS = 50 \<and>
   length (va_worst_draws (fold vertex_call vcs vertex_init)) \<le> 50 \<and>
   length (sb_worst_draws (fold shader_call scs shader_init)) \<le> 50 \<and>
   length (od_high_overdraw_draws (fold overdraw_call ocs (overdraw_init ct texs))) \<le> 50 \<and>
   length (vr_worst_draws (vertex_analyze (fold vertex_call vcs vertex_init))) \<le> 10 \<and>
   length (sr_worst_draws (shader_analyze (fold shader_call scs shader_init))) \<le> 10 \<and>
   length (or_high_overdraw_draws (overdraw_analyze (fold overdraw_call ocs (overdraw_init ct texs)))) \<le> 10 \<and>
   vr_worst_draws (vertex_analyze (vertex_finalize vs)) =
     take 10 (sort_desc wv_wasted_bytes (va_worst_draws vs)) \<and>
   sr_worst_draws (shader_analyze (shader_finalize ss)) =
     take 10 (sort_desc wb_unused_count (sb_worst_draws ss)) \<and>
   or_high_overdraw_draws (overdraw_analyze (overdraw_finalize os)) =
     take 10 (sort_desc hd_overdraw (od_high_overdraw_draws os))"
proof -
  have m: "MAX_DETAIL_RECORDS = 50" by (simp add: MAX_DETAIL_RECORDS_def)
  have v: "length (va_worst_draws (fold vertex_call vcs vertex_init)) \<le> 50"
    using fold_vertex_call_bounded [of vertex_init vcs] by (simp add: m vertex_init_def)
  have s: "length (sb_worst_draws (fold shader_call scs shader_init)) \<le> 50"
    using fold_shader_call_bounded [of shader_init scs] by (simp add: m shader_init_def)
  have o: "length (od_high_overdraw_draws (fold overdraw_call ocs (overdraw_init ct texs))) \<le> 50"
    using fold_overdraw_call_bounded [of "overdraw_init ct texs" ocs] by (simp add: m overdraw_init_def)
  have a: "length (vr_worst_draws (vertex_analyze (fold vertex_call vcs vertex_init))) \<le> 10"
    "length (sr_worst_draws (shader_analyze (fold shader_call scs shader_init))) \<le> 10"
    "length (or_high_overdraw_draws (overdraw_analyze (fold overdraw_call ocs (overdraw_init ct texs)))) \<le> 10"
    by (simp_all add: vertex_analyze_def shader_analyze_def overdraw_analyze_def)
  have f: "vr_worst_draws (vertex_analyze (vertex_finalize vs)) =
      take 10 (sort_desc wv_wasted_bytes (va_worst_draws vs))"
    "sr_worst_draws (shader_analyze (shader_finalize ss)) =
      take 10 (sort_desc wb_unused_count (sb_worst_draws ss))"
    "or_high_overdraw_draws (overdraw_analyze (overdraw_finalize os)) =
      take 10 (sort_desc hd_overdraw (od_high_overdraw_draws os))"
    by (simp_all add: vertex_analyze_def shader_analyze_def overdraw_analyze_def
        vertex_finalize_def shader_finalize_def overdraw_finalize_def)
  from m v s o a f show ?thesis by blast
qed

section \<open>\<^verbatim>\<open>analyze_all.py\<close>: the scheduler\<close>

text \<open>
  An analyzer object, as the scheduler sees it through the interface of \<^verbatim>\<open>BaseAnalyzer\<close>:
  its attributes (the state \<open>'s\<close>) and the three methods the scheduler calls. A method
  mutates the object and then returns or raises; the new state is kept in both cases.
  The pipeline state is a \<open>'p\<close>, the result dictionary of \<^verbatim>\<open>analyze\<close> an \<open>'r\<close>.
\<close>

record ('s, 'p, 'r) analyzer =
  an_state :: 's
  an_analyze :: "'s \<Rightarrow> 's \<times> (exn + 'r)"
  an_analyze_action :: "action \<Rightarrow> 'p \<Rightarrow> 's \<Rightarrow> 's \<times> exn option"
  an_finalize :: "'s \<Rightarrow> 's \<times> exn option"

type_synonym mod_id = string

text \<open>
  An element of \<^verbatim>\<open>iter_analyzers\<close> is \<^verbatim>\<open>(mod_id, mod_name, analyzer)\<close>; an element of
  \<^verbatim>\<open>analyzers\<close> has the flag \<^verbatim>\<open>needs_iteration\<close> as well.
\<close>

type_synonym ('s, 'p, 'r) iter_entry = "mod_id \<times> string \<times> ('s, 'p, 'r) analyzer"

type_synonym ('s, 'p, 'r) entry = "mod_id \<times> string \<times> ('s, 'p, 'r) analyzer \<times> bool"

text \<open>
  An entry of \<^verbatim>\<open>self.results\<close>: the status with its data or its error text. (The entry's
  reference to the analyzer is the object in the list.)
\<close>

datatype 'r result_entry = Success 'r | Partial string | Error string

text \<open>
  The replay controller: \<^verbatim>\<open>SetFrameEvent(eventId, False)\<close> raises or returns nothing;
  \<^verbatim>\<open>GetPipelineState()\<close> raises or returns the pipeline state at the event the controller
  was moved to last, which is the argument here.
\<close>

record 'p controller =
  GetRootActions :: "action list"
  SetFrameEvent :: "int \<Rightarrow> exn option"
  GetPipelineState :: "int \<Rightarrow> exn + 'p"

text \<open>
  The calls the scheduler makes are written to a trace, which exists in the model only:
  the claims about the traversal speak of which calls happen and in which order.
\<close>

datatype event =
  EnterAction action
  | CallSetFrameEvent int
  | CallGetPipelineState
  | CallAnalyzeAction mod_id action
  | CallFinalize mod_id
  | CallAnalyze mod_id

text \<open>
  The state of an \<^verbatim>\<open>AnalysisScheduler\<close> during \<^verbatim>\<open>run\<close>: the dictionaries \<^verbatim>\<open>self.results\<close>
  and \<^verbatim>\<open>self.errors\<close>, the local counter \<^verbatim>\<open>processed\<close> and list \<^verbatim>\<open>iter_analyzers\<close> of
  \<^verbatim>\<open>run_iteration_analyzers\<close>, the trace, and the number of times \<^verbatim>\<open>self.timed_out\<close> has
  been read.

  \<^verbatim>\<open>self.timed_out\<close> is set by the timer thread, once, at a moment the scheduler does not
  control, and never cleared. All the scheduler can observe is from which of its reads on
  the flag is true: \<open>timeout_after = Some n\<close> says that the reads numbered \<open>n\<close> and later
  (counting from 0) see \<^verbatim>\<open>True\<close>, \<open>None\<close> that the timer never fires during the run.
\<close>

record ('s, 'p, 'r) scheduler =
  results :: "mod_id \<rightharpoonup> 'r result_entry"
  errors :: "mod_id \<rightharpoonup> string"
  processed :: int
  iter_analyzers :: "('s, 'p, 'r) iter_entry list"
  trace :: "event list"
  reads :: nat

definition scheduler_init :: "('s, 'p, 'r) scheduler" where
  "scheduler_init = \<lparr>results = Map.empty, errors = Map.empty, processed = 0, iter_analyzers = [],
     trace = [], reads = 0\<rparr>"

definition timed_out :: "nat option \<Rightarrow> ('s, 'p, 'r) scheduler \<Rightarrow> bool" where
  "timed_out timeout_after s = (case timeout_after of None \<Rightarrow> False | Some n \<Rightarrow> n \<le> reads s)"

definition tick :: "('s, 'p, 'r) scheduler \<Rightarrow> ('s, 'p, 'r) scheduler" where
  "tick s = s\<lparr>reads := Suc (reads s)\<rparr>"

definition log_event :: "event \<Rightarrow> ('s, 'p, 'r) scheduler \<Rightarrow> ('s, 'p, 'r) scheduler" where
  "log_event e s = s\<lparr>trace := trace s @ [e]\<rparr>"

text \<open>
  The error texts. Python strings are sequences of code points and the texts hold Chinese
  characters; here a string is the UTF-8 encoding, one \<^typ>\<open>char\<close> a byte. The test
  \<^verbatim>\<open>'analyze_action' in self.errors[mod_id]\<close> looks for an ASCII text, which occurs in the
  encoding exactly where it occurs in the string.
\<close>

definition timeout_skipped :: string where
  "timeout_skipped =
     [CHR 0xE8, CHR 0xB6, CHR 0x85, CHR 0xE6, CHR 0x97, CHR 0xB6,
      CHR 0xE8, CHR 0xB7, CHR 0xB3, CHR 0xE8, CHR 0xBF, CHR 0x87]"

definition analyze_action_failed :: "exn \<Rightarrow> string" where
  "analyze_action_failed e =
     ''analyze_action '' @ [CHR 0xE5, CHR 0xA4, CHR 0xB1, CHR 0xE8, CHR 0xB4, CHR 0xA5] @ '': '' @
       message e"

text \<open>
  A \<^verbatim>\<open>for\<close> loop over a list of objects: the body may mutate the object it is given and the
  rest of the state.
\<close>

fun for_each :: "('a \<Rightarrow> 'st \<Rightarrow> 'a \<times> 'st) \<Rightarrow> 'a list \<Rightarrow> 'st \<Rightarrow> 'a list \<times> 'st" where
  "for_each body [] s = ([], s)"
| "for_each body (x # xs) s =
     (let (x', s1) = body x s; (xs', s2) = for_each body xs s1 in (x' # xs', s2))"

subsection \<open>\<^verbatim>\<open>run_static_analyzers\<close>\<close>

definition static_step ::
  "nat option \<Rightarrow> ('s, 'p, 'r) entry \<Rightarrow> ('s, 'p, 'r) scheduler
     \<Rightarrow> ('s, 'p, 'r) entry \<times> ('s, 'p, 'r) scheduler" where
  "static_step timeout_after ent s =
     (case ent of (mod_id, mod_name, analyzer, needs_iteration) \<Rightarrow>
        if needs_iteration then (ent, s)
        else if timed_out timeout_after s
          then (ent, (tick s)\<lparr>errors := (errors s)(mod_id \<mapsto> timeout_skipped)\<rparr>)
        else
          (let s1 = log_event (CallAnalyze mod_id) (tick s);
               r = an_analyze analyzer (an_state analyzer);
               analyzer' = analyzer\<lparr>an_state := fst r\<rparr>
           in case snd r of
                Inr result \<Rightarrow>
                  ((mod_id, mod_name, analyzer', needs_iteration),
                   s1\<lparr>results := (results s1)(mod_id \<mapsto> Success result)\<rparr>)
              | Inl e \<Rightarrow>
                  ((mod_id, mod_name, analyzer', needs_iteration),
                   s1\<lparr>errors := (errors s1)(mod_id \<mapsto> message e),
                      results := (results s1)(mod_id \<mapsto> Error (message e))\<rparr>)))"

definition run_static_analyzers ::
  "nat option \<Rightarrow> ('s, 'p, 'r) entry list \<Rightarrow> ('s, 'p, 'r) scheduler
     \<Rightarrow> ('s, 'p, 'r) entry list \<times> ('s, 'p, 'r) scheduler" where
  "run_static_analyzers timeout_after analyzers s = for_each (static_step timeout_after) analyzers s"

subsection \<open>\<^verbatim>\<open>run_iteration_analyzers\<close>\<close>

text \<open>
  The body of \<^verbatim>\<open>for mod_id, mod_name, analyzer in iter_analyzers\<close> inside
  \<^verbatim>\<open>process_action\<close>.
\<close>

definition analyzer_step ::
  "action \<Rightarrow> 'p \<Rightarrow> ('s, 'p, 'r) iter_entry \<Rightarrow> ('s, 'p, 'r) scheduler
     \<Rightarrow> ('s, 'p, 'r) iter_entry \<times> ('s, 'p, 'r) scheduler" where
  "analyzer_step action pipe ent s =
     (case ent of (mod_id, mod_name, analyzer) \<Rightarrow>
        if mod_id \<in> dom (errors s) then (ent, s)
        else
          (let s1 = log_event (CallAnalyzeAction mod_id action) s;
               r = an_analyze_action analyzer action pipe (an_state analyzer);
               analyzer' = analyzer\<lparr>an_state := fst r\<rparr>
           in case snd r of
                None \<Rightarrow> ((mod_id, mod_name, analyzer'), s1)
              | Some e \<Rightarrow>
                  ((mod_id, mod_name, analyzer'),
                   if mod_id \<notin> dom (errors s1)
                   then s1\<lparr>errors := (errors s1)(mod_id \<mapsto> analyze_action_failed e)\<rparr>
                   else s1)))"

definition call_analyzers ::
  "action \<Rightarrow> 'p \<Rightarrow> ('s, 'p, 'r) scheduler \<Rightarrow> ('s, 'p, 'r) scheduler" where
  "call_analyzers action pipe s =
     (let r = for_each (analyzer_step action pipe) (iter_analyzers s) s
      in (snd r)\<lparr>iter_analyzers := fst r\<rparr>)"

text \<open>
  \<^verbatim>\<open>process_action\<close> and its loop over \<^verbatim>\<open>action.children\<close>. The progress output and
  \<^verbatim>\<open>gc.collect()\<close> change nothing that is modelled. A \<^verbatim>\<open>return\<close> inside the loop over the
  children ends \<^verbatim>\<open>process_action\<close>, which has nothing left to do after the loop.
\<close>

fun process_action ::
  "action_flags \<Rightarrow> 'p controller \<Rightarrow> nat option \<Rightarrow> action \<Rightarrow> ('s, 'p, 'r) scheduler
     \<Rightarrow> ('s, 'p, 'r) scheduler"
  and process_children ::
  "action_flags \<Rightarrow> 'p controller \<Rightarrow> nat option \<Rightarrow> action list \<Rightarrow> ('s, 'p, 'r) scheduler
     \<Rightarrow> ('s, 'p, 'r) scheduler"
where
  "process_action rd controller timeout_after (Action fl eid ni nn cs) s =
     (if timed_out timeout_after s then tick s
      else
        (let s1 = log_event (EnterAction (Action fl eid ni nn cs)) (tick s)
         in if has_flag fl (Drawcall rd) \<or> has_flag fl (Dispatch rd) then
              (let s2 = s1\<lparr>processed := processed s1 + 1\<rparr>;
                   s3 = log_event (CallSetFrameEvent eid) s2
               in case SetFrameEvent controller eid of
                    Some e \<Rightarrow> s3
                  | None \<Rightarrow>
                      (let s4 = log_event CallGetPipelineState s3
                       in case GetPipelineState controller eid of
                            Inl e \<Rightarrow> s4
                          | Inr pipe \<Rightarrow>
                              process_children rd controller timeout_after cs
                                (call_analyzers (Action fl eid ni nn cs) pipe s4)))
            else process_children rd controller timeout_after cs s1))"
| "process_children rd controller timeout_after [] s = s"
| "process_children rd controller timeout_after (c # cs) s =
     (if timed_out timeout_after s then tick s
      else process_children rd controller timeout_after cs
             (process_action rd controller timeout_after c (tick s)))"

text \<open>
  The guard of the last loop:
  \<^verbatim>\<open>mod_id in self.errors and 'analyze_action' in self.errors[mod_id]\<close>.
\<close>

definition has_analyze_action_error :: "(mod_id \<rightharpoonup> string) \<Rightarrow> mod_id \<Rightarrow> bool" where
  "has_analyze_action_error errs mod_id =
     (case errs mod_id of None \<Rightarrow> False | Some msg \<Rightarrow> sublist ''analyze_action'' msg)"

text \<open>The body of the last loop of \<^verbatim>\<open>run_iteration_analyzers\<close>.\<close>

definition finish_step ::
  "('s, 'p, 'r) iter_entry \<Rightarrow> ('s, 'p, 'r) scheduler
     \<Rightarrow> ('s, 'p, 'r) iter_entry \<times> ('s, 'p, 'r) scheduler" where
  "finish_step ent s =
     (case ent of (mod_id, mod_name, analyzer) \<Rightarrow>
        if has_analyze_action_error (errors s) mod_id
        then (ent, s\<lparr>results := (results s)(mod_id \<mapsto>
                       Partial (case errors s mod_id of None \<Rightarrow> [] | Some msg \<Rightarrow> msg))\<rparr>)
        else
          (let s1 = log_event (CallFinalize mod_id) s;
               f = an_finalize analyzer (an_state analyzer)
           in case snd f of
                Some e \<Rightarrow>
                  ((mod_id, mod_name, analyzer\<lparr>an_state := fst f\<rparr>),
                   s1\<lparr>errors := (errors s1)(mod_id \<mapsto> message e),
                      results := (results s1)(mod_id \<mapsto> Error (message e))\<rparr>)
              | None \<Rightarrow>
                  (let s2 = log_event (CallAnalyze mod_id) s1;
                       r = an_analyze analyzer (fst f);
                       analyzer' = analyzer\<lparr>an_state := fst r\<rparr>
                   in case snd r of
                        Inr result \<Rightarrow>
                          ((mod_id, mod_name, analyzer'),
                           s2\<lparr>results := (results s2)(mod_id \<mapsto> Success result)\<rparr>)
                      | Inl e \<Rightarrow>
                          ((mod_id, mod_name, analyzer'),
                           s2\<lparr>errors := (errors s2)(mod_id \<mapsto> message e),
                              results := (results s2)(mod_id \<mapsto> Error (message e))\<rparr>))))"

text \<open>
  The traversal, \<^verbatim>\<open>for action in controller.GetRootActions()\<close> (the loop over the roots
  tests the flag and calls \<^verbatim>\<open>process_action\<close> as the loop over children does), and the
  loop of \<^verbatim>\<open>finalize\<close> and \<^verbatim>\<open>analyze\<close> that follows it.
\<close>

definition traverse ::
  "action_flags \<Rightarrow> 'p controller \<Rightarrow> nat option \<Rightarrow> ('s, 'p, 'r) scheduler \<Rightarrow> ('s, 'p, 'r) scheduler" where
  "traverse rd controller timeout_after s =
     process_children rd controller timeout_after (GetRootActions controller) s"

definition finish :: "('s, 'p, 'r) scheduler \<Rightarrow> ('s, 'p, 'r) scheduler" where
  "finish s = (let r = for_each finish_step (iter_analyzers s) s in (snd r)\<lparr>iter_analyzers := fst r\<rparr>)"

definition needing_iteration :: "('s, 'p, 'r) entry list \<Rightarrow> ('s, 'p, 'r) iter_entry list" where
  "needing_iteration analyzers =
     map (\<lambda>ent. (fst ent, fst (snd ent), fst (snd (snd ent))))
       (filter (\<lambda>ent. snd (snd (snd ent))) analyzers)"

definition run_iteration_analyzers ::
  "action_flags \<Rightarrow> 'p controller \<Rightarrow> nat option \<Rightarrow> ('s, 'p, 'r) entry list
     \<Rightarrow> ('s, 'p, 'r) scheduler \<Rightarrow> ('s, 'p, 'r) scheduler" where
  "run_iteration_analyzers rd controller timeout_after analyzers s =
     (if needing_iteration analyzers = [] then s
      else finish (traverse rd controller timeout_after
             (s\<lparr>iter_analyzers := needing_iteration analyzers, processed := 0\<rparr>)))"

subsection \<open>What the trace shows\<close>

text \<open>
  The actions entered, the actions on which \<^verbatim>\<open>analyze_action\<close> of a module was called and
  the number of calls of a module's \<^verbatim>\<open>finalize\<close>, each in the order of the trace.
\<close>

definition entered :: "event list \<Rightarrow> action list" where
  "entered t = concat (map (\<lambda>e. case e of EnterAction a \<Rightarrow> [a] | _ \<Rightarrow> []) t)"

definition calls_of :: "mod_id \<Rightarrow> event list \<Rightarrow> action list" where
  "calls_of m t =
     concat (map (\<lambda>e. case e of CallAnalyzeAction m' a \<Rightarrow> if m' = m then [a] else [] | _ \<Rightarrow> []) t)"

definition finalize_calls :: "mod_id \<Rightarrow> event list \<Rightarrow> nat" where
  "finalize_calls m t = count_list t (CallFinalize m)"

definition analyze_calls :: "mod_id \<Rightarrow> event list \<Rightarrow> nat" where
  "analyze_calls m t = count_list t (CallAnalyze m)"

text \<open>An event of the traversal, and an event of the loop that follows it.\<close>

fun traversal_event :: "event \<Rightarrow> bool" where
  "traversal_event (CallFinalize m) = False"
| "traversal_event (CallAnalyze m) = False"
| "traversal_event e = True"

text \<open>
  The nodes of a tree and of a list of trees in pre-order, and the test of
  \<^verbatim>\<open>process_action\<close> for a draw or dispatch.
\<close>

fun subtree :: "action \<Rightarrow> action list"
  and forest :: "action list \<Rightarrow> action list"
where
  "subtree (Action fl eid ni nn cs) = Action fl eid ni nn cs # forest cs"
| "forest [] = []"
| "forest (a # as) = subtree a @ forest as"

definition draw_or_dispatch :: "action_flags \<Rightarrow> action \<Rightarrow> bool" where
  "draw_or_dispatch rd a = (has_flag (flags a) (Drawcall rd) \<or> has_flag (flags a) (Dispatch rd))"

text \<open>
  The replay of an event: both calls of the \<^verbatim>\<open>try\<close> block succeed and give the pipeline
  state, or one of them raises.
\<close>

definition replay :: "'p controller \<Rightarrow> int \<Rightarrow> 'p option" where
  "replay controller eid =
     (case SetFrameEvent controller eid of
        Some e \<Rightarrow> None
      | None \<Rightarrow> (case GetPipelineState controller eid of Inl e \<Rightarrow> None | Inr pipe \<Rightarrow> Some pipe))"

text \<open>
  The draws and dispatches that a traversal without timeout hands to the analyzers, with
  their pipeline states, in order: a node whose replay raises is left out, and so is
  everything below it.
\<close>

fun replayed :: "action_flags \<Rightarrow> 'p controller \<Rightarrow> action \<Rightarrow> (action \<times> 'p) list"
  and replayed_list :: "action_flags \<Rightarrow> 'p controller \<Rightarrow> action list \<Rightarrow> (action \<times> 'p) list"
where
  "replayed rd controller (Action fl eid ni nn cs) =
     (if has_flag fl (Drawcall rd) \<or> has_flag fl (Dispatch rd) then
        (case replay controller eid of
           None \<Rightarrow> []
         | Some pipe \<Rightarrow> (Action fl eid ni nn cs, pipe) # replayed_list rd controller cs)
      else replayed_list rd controller cs)"
| "replayed_list rd controller [] = []"
| "replayed_list rd controller (a # as) = replayed rd controller a @ replayed_list rd controller as"

text \<open>
  One module on its own: \<^verbatim>\<open>analyze_action\<close> is called on the draws in order until it raises
  for the first time. The result is the list of actions it was called on, the exception if
  there was one, and the state the analyzer is left in.
\<close>

fun module_calls ::
  "('s, 'p, 'r) analyzer \<Rightarrow> (action \<times> 'p) list \<Rightarrow> 's \<Rightarrow> action list \<times> exn option \<times> 's" where
  "module_calls an [] st = ([], None, st)"
| "module_calls an (d # ds) st =
     (let r = an_analyze_action an (fst d) (snd d) st
      in case snd r of
           Some e \<Rightarrow> ([fst d], Some e, fst r)
         | None \<Rightarrow> (let c = module_calls an ds (fst r) in (fst d # fst c, snd c)))"

subsection \<open>Lemmas on the trace and on each loop\<close>

lemma entered_append [simp]: "entered (t @ u) = entered t @ entered u"
  by (simp add: entered_def)

lemma calls_of_append [simp]: "calls_of m (t @ u) = calls_of m t @ calls_of m u"
  by (simp add: calls_of_def)

lemma finalize_calls_append [simp]: "finalize_calls m (t @ u) = finalize_calls m t + finalize_calls m u"
  by (induction t) (simp_all add: finalize_calls_def)

lemma analyze_calls_append [simp]: "analyze_calls m (t @ u) = analyze_calls m t + analyze_calls m u"
  by (induction t) (simp_all add: analyze_calls_def)

lemma entered_Cons [simp]:
  "entered [] = []"
  "entered (EnterAction a # t) = a # entered t"
  "entered (CallSetFrameEvent i # t) = entered t"
  "entered (CallGetPipelineState # t) = entered t"
  "entered (CallAnalyzeAction m a # t) = entered t"
  "entered (CallFinalize m # t) = entered t"
  "entered (CallAnalyze m # t) = entered t"
  by (simp_all add: entered_def)

lemma calls_of_Cons [simp]:
  "calls_of m [] = []"
  "calls_of m (EnterAction a # t) = calls_of m t"
  "calls_of m (CallSetFrameEvent i # t) = calls_of m t"
  "calls_of m (CallGetPipelineState # t) = calls_of m t"
  "calls_of m (CallAnalyzeAction m' a # t) = (if m' = m then a # calls_of m t else calls_of m t)"
  "calls_of m (CallFinalize m' # t) = calls_of m t"
  "calls_of m (CallAnalyze m' # t) = calls_of m t"
  by (simp_all add: calls_of_def)

lemma finalize_calls_Cons [simp]:
  "finalize_calls m [] = 0"
  "finalize_calls m (EnterAction a # t) = finalize_calls m t"
  "finalize_calls m (CallSetFrameEvent i # t) = finalize_calls m t"
  "finalize_calls m (CallGetPipelineState # t) = finalize_calls m t"
  "finalize_calls m (CallAnalyzeAction m' a # t) = finalize_calls m t"
  "finalize_calls m (CallFinalize m' # t) = (if m' = m then Suc (finalize_calls m t) else finalize_calls m t)"
  "finalize_calls m (CallAnalyze m' # t) = finalize_calls m t"
  by (simp_all add: finalize_calls_def)

lemma analyze_calls_Cons [simp]:
  "analyze_calls m [] = 0"
  "analyze_calls m (EnterAction a # t) = analyze_calls m t"
  "analyze_calls m (CallSetFrameEvent i # t) = analyze_calls m t"
  "analyze_calls m (CallGetPipelineState # t) = analyze_calls m t"
  "analyze_calls m (CallAnalyzeAction m' a # t) = analyze_calls m t"
  "analyze_calls m (CallFinalize m' # t) = analyze_calls m t"
  "analyze_calls m (CallAnalyze m' # t) = (if m' = m then Suc (analyze_calls m t) else analyze_calls m t)"
  by (simp_all add: analyze_calls_def)

lemma scheduler_simps [simp]:
  "trace (tick s) = trace s" "errors (tick s) = errors s" "results (tick s) = results s"
  "iter_analyzers (tick s) = iter_analyzers s" "reads (tick s) = Suc (reads s)"
  "trace (log_event e s) = trace s @ [e]" "errors (log_event e s) = errors s"
  "results (log_event e s) = results s" "iter_analyzers (log_event e s) = iter_analyzers s"
  "reads (log_event e s) = reads s"
  "timed_out None s = False"
  by (simp_all add: tick_def log_event_def timed_out_def)

text \<open>A loop keeps what every run of its body keeps.\<close>

lemma for_each_keeps:
  assumes "\<And>x s. x \<in> set xs \<Longrightarrow> f (snd (body x s)) = f s"
  shows "f (snd (for_each body xs s)) = f s"
  using assms
  by (induction xs arbitrary: s) (simp_all add: split_beta Let_def)

lemma for_each_keys:
  assumes "\<And>x s. x \<in> set xs \<Longrightarrow> fst (fst (body x s)) = fst x"
  shows "map fst (fst (for_each body xs s)) = map fst xs"
  using assms
  by (induction xs arbitrary: s) (simp_all add: split_beta Let_def)

text \<open>
  What the scheduler holds for one module: its object in \<^verbatim>\<open>iter_analyzers\<close>, its entry in
  \<^verbatim>\<open>self.errors\<close>, and the actions its \<^verbatim>\<open>analyze_action\<close> was called on.
\<close>

definition view ::
  "mod_id \<Rightarrow> ('s, 'p, 'r) scheduler
     \<Rightarrow> (string \<times> ('s, 'p, 'r) analyzer) option \<times> string option \<times> action list" where
  "view m s = (map_of (iter_analyzers s) m, errors s m, calls_of m (trace s))"

text \<open>What one replayed draw does to a module that has no error yet; nothing to any other.\<close>

definition view_step ::
  "action \<Rightarrow> 'p \<Rightarrow> (string \<times> ('s, 'p, 'r) analyzer) option \<times> string option \<times> action list
     \<Rightarrow> (string \<times> ('s, 'p, 'r) analyzer) option \<times> string option \<times> action list" where
  "view_step a p v =
     (case v of
        (None, err, cs) \<Rightarrow> v
      | (Some (n, an), Some msg, cs) \<Rightarrow> v
      | (Some (n, an), None, cs) \<Rightarrow>
          (let r = an_analyze_action an a p (an_state an)
           in (Some (n, an\<lparr>an_state := fst r\<rparr>), map_option analyze_action_failed (snd r), cs @ [a])))"

lemma analyzer_step_key: "fst (fst (analyzer_step a p ent s)) = fst ent"
  by (cases ent) (simp add: analyzer_step_def Let_def split: option.splits)

lemma analyzer_step_frame:
  "entered (trace (snd (analyzer_step a p ent s))) = entered (trace s)"
  "finalize_calls m (trace (snd (analyzer_step a p ent s))) = finalize_calls m (trace s)"
  "analyze_calls m (trace (snd (analyzer_step a p ent s))) = analyze_calls m (trace s)"
  "results (snd (analyzer_step a p ent s)) = results s"
  "reads (snd (analyzer_step a p ent s)) = reads s"
  "processed (snd (analyzer_step a p ent s)) = processed s"
  by (cases ent; simp add: analyzer_step_def Let_def log_event_def split: option.splits)+

lemma analyzer_step_other:
  assumes "m \<noteq> fst ent"
  shows "errors (snd (analyzer_step a p ent s)) m = errors s m"
    and "calls_of m (trace (snd (analyzer_step a p ent s))) = calls_of m (trace s)"
  using assms
  by (cases ent; auto simp: analyzer_step_def Let_def log_event_def split: option.splits)+

lemma analyzer_step_self:
  "(Some (snd (fst (analyzer_step a p (m, n, an) s))),
    errors (snd (analyzer_step a p (m, n, an) s)) m,
    calls_of m (trace (snd (analyzer_step a p (m, n, an) s)))) =
   view_step a p (Some (n, an), errors s m, calls_of m (trace s))"
  by (auto simp: analyzer_step_def view_step_def Let_def log_event_def split: option.splits)

lemma for_each_analyzer_step_other:
  assumes "m \<notin> fst ` set ents"
  shows "errors (snd (for_each (analyzer_step a p) ents s)) m = errors s m"
    and "calls_of m (trace (snd (for_each (analyzer_step a p) ents s))) = calls_of m (trace s)"
proof -
  have ne: "m \<noteq> fst x" if "x \<in> set ents" for x using that assms by auto
  show "errors (snd (for_each (analyzer_step a p) ents s)) m = errors s m"
    by (rule for_each_keeps [where f = "\<lambda>s. errors s m"]) (simp add: analyzer_step_other ne)
  show "calls_of m (trace (snd (for_each (analyzer_step a p) ents s))) = calls_of m (trace s)"
    by (rule for_each_keeps [where f = "\<lambda>s. calls_of m (trace s)"]) (simp add: analyzer_step_other ne)
qed

lemma for_each_analyzer_step_keys:
  "map fst (fst (for_each (analyzer_step a p) ents s)) = map fst ents"
  by (rule for_each_keys) (rule analyzer_step_key)

lemma for_each_analyzer_step_view:
  assumes "distinct (map fst ents)"
  shows "(map_of (fst (for_each (analyzer_step a p) ents s)) m,
          errors (snd (for_each (analyzer_step a p) ents s)) m,
          calls_of m (trace (snd (for_each (analyzer_step a p) ents s)))) =
         view_step a p (map_of ents m, errors s m, calls_of m (trace s))"
  using assms
proof (induction ents arbitrary: s)
  case Nil
  then show ?case by (simp add: view_step_def)
next
  case (Cons ent ents)
  obtain m0 n0 an0 where ent: "ent = (m0, n0, an0)" by (cases ent) auto
  let ?r = "analyzer_step a p ent s"
  let ?l = "for_each (analyzer_step a p) ents (snd ?r)"
  have key: "fst (fst ?r) = m0" by (simp add: analyzer_step_key ent)
  have unfold: "for_each (analyzer_step a p) (ent # ents) s = (fst ?r # fst ?l, snd ?l)"
    by (simp add: split_beta Let_def)
  show ?case
  proof (cases "m = m0")
    case True
    with Cons.prems ent have notin: "m \<notin> fst ` set ents" by auto
    have "map_of (fst ?r # fst ?l) m = Some (snd (fst ?r))"
      using key True by (cases "fst ?r") auto
    moreover have "errors (snd ?l) m = errors (snd ?r) m"
      and "calls_of m (trace (snd ?l)) = calls_of m (trace (snd ?r))"
      using for_each_analyzer_step_other [OF notin] by auto
    ultimately show ?thesis
      using analyzer_step_self [of a p m n0 an0 s] True ent unfold by simp
  next
    case False
    then have "map_of (fst ?r # fst ?l) m = map_of (fst ?l) m"
      using key by (cases "fst ?r") auto
    moreover have "errors (snd ?r) m = errors s m"
      and "calls_of m (trace (snd ?r)) = calls_of m (trace s)"
      using analyzer_step_other [of m ent] False ent by auto
    moreover have "map_of (ent # ents) m = map_of ents m"
      using False ent by simp
    ultimately show ?thesis
      using Cons.IH [of "snd ?r"] Cons.prems unfold by simp
  qed
qed

lemma call_analyzers_keys:
  "map fst (iter_analyzers (call_analyzers a p s)) = map fst (iter_analyzers s)"
  by (simp add: call_analyzers_def Let_def for_each_analyzer_step_keys)

lemma call_analyzers_view:
  "distinct (map fst (iter_analyzers s)) \<Longrightarrow> view m (call_analyzers a p s) = view_step a p (view m s)"
  using for_each_analyzer_step_view [of "iter_analyzers s" a p s m]
  by (simp add: view_def call_analyzers_def Let_def)

lemma call_analyzers_frame:
  "entered (trace (call_analyzers a p s)) = entered (trace s)"
  "finalize_calls m (trace (call_analyzers a p s)) = finalize_calls m (trace s)"
  "analyze_calls m (trace (call_analyzers a p s)) = analyze_calls m (trace s)"
  "results (call_analyzers a p s) = results s"
proof -
  show "entered (trace (call_analyzers a p s)) = entered (trace s)"
    using for_each_keeps [where f = "\<lambda>s. entered (trace s)" and body = "analyzer_step a p"]
    by (simp add: call_analyzers_def Let_def analyzer_step_frame)
  show "finalize_calls m (trace (call_analyzers a p s)) = finalize_calls m (trace s)"
    using for_each_keeps [where f = "\<lambda>s. finalize_calls m (trace s)" and body = "analyzer_step a p"]
    by (simp add: call_analyzers_def Let_def analyzer_step_frame)
  show "analyze_calls m (trace (call_analyzers a p s)) = analyze_calls m (trace s)"
    using for_each_keeps [where f = "\<lambda>s. analyze_calls m (trace s)" and body = "analyzer_step a p"]
    by (simp add: call_analyzers_def Let_def analyzer_step_frame)
  show "results (call_analyzers a p s) = results s"
    using for_each_keeps [where f = results and body = "analyzer_step a p"]
    by (simp add: call_analyzers_def Let_def analyzer_step_frame)
qed

lemma view_frame [simp]:
  "view m (tick s) = view m s"
  "view m (log_event (EnterAction a) s) = view m s"
  "view m (log_event (CallSetFrameEvent i) s) = view m s"
  "view m (log_event CallGetPipelineState s) = view m s"
  "view m (s\<lparr>processed := k\<rparr>) = view m s"
  by (simp_all add: view_def tick_def log_event_def)

lemma process_keys:
  "map fst (iter_analyzers (process_action rd c t a s)) = map fst (iter_analyzers s)"
  "map fst (iter_analyzers (process_children rd c t as s)) = map fst (iter_analyzers s)"
proof (induction rd c t a s and rd c t as s rule: process_action_process_children.induct)
  case (1 rd controller timeout_after fl eid ni nn cs s)
  then show ?case
    by (simp add: Let_def call_analyzers_keys split: option.splits sum.splits)
next
  case (2 rd controller timeout_after s)
  then show ?case by simp
next
  case (3 rd controller timeout_after c cs s)
  then show ?case by simp
qed

lemma process_frame:
  "finalize_calls m (trace (process_action rd c t a s)) = finalize_calls m (trace s) \<and>
   analyze_calls m (trace (process_action rd c t a s)) = analyze_calls m (trace s) \<and>
   results (process_action rd c t a s) = results s"
  "finalize_calls m (trace (process_children rd c t as s)) = finalize_calls m (trace s) \<and>
   analyze_calls m (trace (process_children rd c t as s)) = analyze_calls m (trace s) \<and>
   results (process_children rd c t as s) = results s"
proof (induction rd c t a s and rd c t as s rule: process_action_process_children.induct)
  case (1 rd controller timeout_after fl eid ni nn cs s)
  then show ?case
    by (simp add: Let_def call_analyzers_frame split: option.splits sum.splits)
next
  case (2 rd controller timeout_after s)
  then show ?case by simp
next
  case (3 rd controller timeout_after c cs s)
  then show ?case by simp
qed

lemma process_view:
  "t = None \<Longrightarrow> distinct (map fst (iter_analyzers s)) \<Longrightarrow>
     view m (process_action rd c t a s) =
       fold (\<lambda>d. view_step (fst d) (snd d)) (replayed rd c a) (view m s)"
  "t = None \<Longrightarrow> distinct (map fst (iter_analyzers s)) \<Longrightarrow>
     view m (process_children rd c t as s) =
       fold (\<lambda>d. view_step (fst d) (snd d)) (replayed_list rd c as) (view m s)"
proof (induction rd c t a s and rd c t as s rule: process_action_process_children.induct)
  case (1 rd controller timeout_after fl eid ni nn cs s)
  note t = \<open>timeout_after = None\<close> and d = \<open>distinct (map fst (iter_analyzers s))\<close>
  let ?a = "Action fl eid ni nn cs"
  let ?s1 = "log_event (EnterAction ?a) (tick s)"
  show ?case
  proof (cases "has_flag fl (Drawcall rd) \<or> has_flag fl (Dispatch rd)")
    case False
    have "view m (process_children rd controller timeout_after cs ?s1) =
        fold (\<lambda>d. view_step (fst d) (snd d)) (replayed_list rd controller cs) (view m ?s1)"
      using "1.IH"(2) [OF _ refl False t] t d by simp
    with False t show ?thesis by (simp add: Let_def)
  next
    case True
    let ?s3 = "log_event (CallSetFrameEvent eid) (?s1\<lparr>processed := processed ?s1 + 1\<rparr>)"
    let ?s4 = "log_event CallGetPipelineState ?s3"
    show ?thesis
    proof (cases "replay controller eid")
      case None
      with True t show ?thesis
        by (auto simp: Let_def replay_def split: option.splits sum.splits)
    next
      case (Some pipe)
      then have sfe: "SetFrameEvent controller eid = None"
        and gps: "GetPipelineState controller eid = Inr pipe"
        by (auto simp: replay_def split: option.splits sum.splits)
      let ?s5 = "call_analyzers ?a pipe ?s4"
      have d5: "distinct (map fst (iter_analyzers ?s5))"
        using d by (simp add: call_analyzers_keys)
      have v5: "view m ?s5 = view_step ?a pipe (view m s)"
        using d by (simp add: call_analyzers_view)
      have "view m (process_children rd controller timeout_after cs ?s5) =
          fold (\<lambda>d. view_step (fst d) (snd d)) (replayed_list rd controller cs) (view m ?s5)"
        using "1.IH"(1) [OF _ refl True refl refl sfe refl gps t d5] t by simp
      with True t sfe gps Some v5 show ?thesis by (simp add: Let_def)
    qed
  qed
next
  case (2 rd controller timeout_after s)
  then show ?case by simp
next
  case (3 rd controller timeout_after c cs s)
  note t = \<open>timeout_after = None\<close> and d = \<open>distinct (map fst (iter_analyzers s))\<close>
  let ?s1 = "process_action rd controller timeout_after c (tick s)"
  have v1: "view m ?s1 = fold (\<lambda>d. view_step (fst d) (snd d)) (replayed rd controller c) (view m s)"
    using "3.IH"(1) t d by simp
  have d1: "distinct (map fst (iter_analyzers ?s1))"
    using d by (simp add: process_keys)
  have "view m (process_children rd controller timeout_after cs ?s1) =
      fold (\<lambda>d. view_step (fst d) (snd d)) (replayed_list rd controller cs) (view m ?s1)"
    using "3.IH"(2) t d1 by simp
  with v1 t show ?case by simp
qed

lemma process_entered:
  "t = None \<Longrightarrow> \<forall>x\<in>set (subtree a). draw_or_dispatch rd x \<longrightarrow> replay c (eventId x) \<noteq> None \<Longrightarrow>
     entered (trace (process_action rd c t a s)) = entered (trace s) @ subtree a"
  "t = None \<Longrightarrow> \<forall>x\<in>set (forest as). draw_or_dispatch rd x \<longrightarrow> replay c (eventId x) \<noteq> None \<Longrightarrow>
     entered (trace (process_children rd c t as s)) = entered (trace s) @ forest as"
proof (induction rd c t a s and rd c t as s rule: process_action_process_children.induct)
  case (1 rd controller timeout_after fl eid ni nn cs s)
  note t = \<open>timeout_after = None\<close>
  let ?a = "Action fl eid ni nn cs"
  have ok: "\<forall>x\<in>set (forest cs). draw_or_dispatch rd x \<longrightarrow> replay controller (eventId x) \<noteq> None"
    using "1.prems"(2) by simp
  let ?s1 = "log_event (EnterAction ?a) (tick s)"
  show ?case
  proof (cases "has_flag fl (Drawcall rd) \<or> has_flag fl (Dispatch rd)")
    case False
    have "entered (trace (process_children rd controller timeout_after cs ?s1)) =
        entered (trace ?s1) @ forest cs"
      using "1.IH"(2) [OF _ refl False t ok] t by simp
    with False t show ?thesis by (simp add: Let_def)
  next
    case True
    then have "replay controller eid \<noteq> None"
      using "1.prems"(2) by (auto simp: draw_or_dispatch_def)
    then obtain pipe where sfe: "SetFrameEvent controller eid = None"
      and gps: "GetPipelineState controller eid = Inr pipe"
      by (auto simp: replay_def split: option.splits sum.splits)
    let ?s4 = "log_event CallGetPipelineState
        (log_event (CallSetFrameEvent eid) (?s1\<lparr>processed := processed ?s1 + 1\<rparr>))"
    let ?s5 = "call_analyzers ?a pipe ?s4"
    have "entered (trace (process_children rd controller timeout_after cs ?s5)) =
        entered (trace ?s5) @ forest cs"
      using "1.IH"(1) [OF _ refl True refl refl sfe refl gps t ok] t by simp
    with True t sfe gps show ?thesis by (simp add: Let_def call_analyzers_frame)
  qed
next
  case (2 rd controller timeout_after s)
  then show ?case by simp
next
  case (3 rd controller timeout_after c cs s)
  then show ?case by simp
qed

lemma replayed_all:
  "\<forall>x\<in>set (subtree a). draw_or_dispatch rd x \<longrightarrow> replay c (eventId x) \<noteq> None \<Longrightarrow>
     map fst (replayed rd c a) = filter (draw_or_dispatch rd) (subtree a)"
  "\<forall>x\<in>set (forest as). draw_or_dispatch rd x \<longrightarrow> replay c (eventId x) \<noteq> None \<Longrightarrow>
     map fst (replayed_list rd c as) = filter (draw_or_dispatch rd) (forest as)"
  by (induction rd c a and rd c as rule: replayed_replayed_list.induct)
     (auto simp: draw_or_dispatch_def split: option.splits)

lemma process_prefix:
  "\<exists>u. trace (process_action rd c t a s) = trace s @ u"
  "\<exists>u. trace (process_children rd c t as s) = trace s @ u"
proof (induction rd c t a s and rd c t as s rule: process_action_process_children.induct)
  case (1 rd controller timeout_after fl eid ni nn cs s)
  have ca: "\<exists>u. trace (call_analyzers a p s) = trace s @ u" for a p and s :: "('a, 'b, 'c) scheduler"
  proof -
    have "\<exists>u. trace (snd (for_each (analyzer_step a p) ents s)) = trace s @ u"
      for ents and s :: "('a, 'b, 'c) scheduler"
    proof (induction ents arbitrary: s)
      case Nil
      then show ?case by simp
    next
      case (Cons ent ents)
      have "\<exists>u. trace (snd (analyzer_step a p ent s)) = trace s @ u"
        by (cases ent) (auto simp: analyzer_step_def Let_def split: option.splits)
      with Cons [of "snd (analyzer_step a p ent s)"] show ?case
        by (auto simp: split_beta Let_def)
    qed
    then show ?thesis by (simp add: call_analyzers_def Let_def)
  qed
  show ?case
  proof (cases "timed_out timeout_after s")
    case True
    then show ?thesis by simp
  next
    case to: False
    let ?a = "Action fl eid ni nn cs"
    let ?s1 = "log_event (EnterAction ?a) (tick s)"
    show ?thesis
    proof (cases "has_flag fl (Drawcall rd) \<or> has_flag fl (Dispatch rd)")
      case False
      from "1.IH"(2) [OF to refl False] obtain u where
        "trace (process_children rd controller timeout_after cs ?s1) = trace ?s1 @ u" by blast
      with to False show ?thesis by (simp add: Let_def)
    next
      case True
      let ?s3 = "log_event (CallSetFrameEvent eid) (?s1\<lparr>processed := processed ?s1 + 1\<rparr>)"
      let ?s4 = "log_event CallGetPipelineState ?s3"
      show ?thesis
      proof (cases "SetFrameEvent controller eid")
        case (Some e)
        with to True show ?thesis by (simp add: Let_def)
      next
        case None
        show ?thesis
        proof (cases "GetPipelineState controller eid")
          case (Inl e)
          with to True None show ?thesis by (simp add: Let_def)
        next
          case (Inr pipe)
          from "1.IH"(1) [OF to refl True refl refl None refl Inr] obtain u where
            u: "trace (process_children rd controller timeout_after cs (call_analyzers ?a pipe ?s4)) =
              trace (call_analyzers ?a pipe ?s4) @ u" by blast
          from ca [of ?a pipe ?s4] obtain v where
            "trace (call_analyzers ?a pipe ?s4) = trace ?s4 @ v" by blast
          with u to True None Inr show ?thesis by (simp add: Let_def)
        qed
      qed
    qed
  qed
next
  case (2 rd controller timeout_after s)
  then show ?case by simp
next
  case (3 rd controller timeout_after c cs s)
  show ?case
  proof (cases "timed_out timeout_after s")
    case True
    then show ?thesis by simp
  next
    case False
    from "3.IH"(1) [OF False] obtain u where
      u: "trace (process_action rd controller timeout_after c (tick s)) = trace (tick s) @ u" by blast
    from "3.IH"(2) [OF False] obtain v where
      "trace (process_children rd controller timeout_after cs
          (process_action rd controller timeout_after c (tick s))) =
        trace (process_action rd controller timeout_after c (tick s)) @ v" by blast
    with u False show ?thesis by simp
  qed
qed

text \<open>One module followed through the draws.\<close>

lemma fold_view_step_idle:
  "fold (\<lambda>d. view_step (fst d) (snd d)) ds (None, err, cs) = (None, err, cs)"
  "fold (\<lambda>d. view_step (fst d) (snd d)) ds (Some na, Some msg, cs) = (Some na, Some msg, cs)"
  by (induction ds; cases na; simp add: view_step_def)+

lemma module_calls_state [simp]:
  "module_calls (an\<lparr>an_state := x\<rparr>) ds st = module_calls an ds st"
  by (induction ds arbitrary: st) (simp_all add: Let_def split: option.splits)

lemma fold_view_step_module:
  "fold (\<lambda>d. view_step (fst d) (snd d)) ds (Some (n, an), None, cs) =
     (Some (n, an\<lparr>an_state := snd (snd (module_calls an ds (an_state an)))\<rparr>),
      map_option analyze_action_failed (fst (snd (module_calls an ds (an_state an)))),
      cs @ fst (module_calls an ds (an_state an)))"
proof (induction ds arbitrary: an cs)
  case Nil
  then show ?case by simp
next
  case (Cons d ds)
  let ?r = "an_analyze_action an (fst d) (snd d) (an_state an)"
  show ?case
  proof (cases "snd ?r")
    case None
    then show ?thesis
      using Cons [of "an\<lparr>an_state := fst ?r\<rparr>" "cs @ [fst d]"]
      by (simp add: view_step_def Let_def)
  next
    case (Some e)
    then have "view_step (fst d) (snd d) (Some (n, an), None, cs) =
        (Some (n, an\<lparr>an_state := fst ?r\<rparr>), Some (analyze_action_failed e), cs @ [fst d])"
      by (simp add: view_step_def Let_def)
    with Some show ?thesis
      by (simp add: Let_def fold_view_step_idle)
  qed
qed

subsection \<open>The loop of \<^verbatim>\<open>finalize\<close> and \<^verbatim>\<open>analyze\<close>\<close>

lemma for_each_snd_Cons:
  "snd (for_each body (x # xs) s) = snd (for_each body xs (snd (body x s)))"
  by (simp add: split_beta Let_def)

declare for_each.simps(2) [simp del]

lemma finish_step_key: "fst (fst (finish_step ent s)) = fst ent"
  by (cases ent) (simp add: finish_step_def Let_def split: option.splits sum.splits)

lemma finish_step_frame:
  "entered (trace (snd (finish_step ent s))) = entered (trace s)"
  "calls_of m (trace (snd (finish_step ent s))) = calls_of m (trace s)"
  by (cases ent; simp add: finish_step_def Let_def split: option.splits sum.splits)+

lemma finish_step_prefix: "\<exists>u. trace (snd (finish_step ent s)) = trace s @ u"
  by (cases ent) (simp add: finish_step_def Let_def split: option.splits sum.splits)

lemma finish_step_other:
  assumes "m \<noteq> fst ent"
  shows "errors (snd (finish_step ent s)) m = errors s m"
    and "results (snd (finish_step ent s)) m = results s m"
    and "finalize_calls m (trace (snd (finish_step ent s))) = finalize_calls m (trace s)"
  using assms
  by (cases ent; simp add: finish_step_def Let_def split: option.splits sum.splits)+

lemma finish_step_self:
  "finalize_calls m (trace (snd (finish_step (m, n, an) s))) =
     finalize_calls m (trace s) + (if has_analyze_action_error (errors s) m then 0 else 1)"
  "has_analyze_action_error (errors s) m \<Longrightarrow>
     errors (snd (finish_step (m, n, an) s)) m = errors s m \<and>
     results (snd (finish_step (m, n, an) s)) m =
       Some (Partial (case errors s m of None \<Rightarrow> [] | Some msg \<Rightarrow> msg))"
  by (simp_all add: finish_step_def Let_def split: option.splits sum.splits)

lemma for_each_finish_step_other:
  assumes "m \<notin> fst ` set ents"
  shows "errors (snd (for_each finish_step ents s)) m = errors s m"
    and "results (snd (for_each finish_step ents s)) m = results s m"
    and "finalize_calls m (trace (snd (for_each finish_step ents s))) = finalize_calls m (trace s)"
proof -
  have ne: "m \<noteq> fst x" if "x \<in> set ents" for x using that assms by auto
  show "errors (snd (for_each finish_step ents s)) m = errors s m"
    by (rule for_each_keeps [where f = "\<lambda>s. errors s m"]) (simp add: finish_step_other ne)
  show "results (snd (for_each finish_step ents s)) m = results s m"
    by (rule for_each_keeps [where f = "\<lambda>s. results s m"]) (simp add: finish_step_other ne)
  show "finalize_calls m (trace (snd (for_each finish_step ents s))) = finalize_calls m (trace s)"
    by (rule for_each_keeps [where f = "\<lambda>s. finalize_calls m (trace s)"])
       (simp add: finish_step_other ne)
qed

lemma for_each_finish_step_count:
  assumes "distinct (map fst ents)" and "m \<in> fst ` set ents"
  shows "finalize_calls m (trace (snd (for_each finish_step ents s))) =
           finalize_calls m (trace s) + (if has_analyze_action_error (errors s) m then 0 else 1)"
  using assms
proof (induction ents arbitrary: s)
  case Nil
  then show ?case by simp
next
  case (Cons ent ents)
  obtain m0 n0 an0 where ent: "ent = (m0, n0, an0)" by (cases ent) auto
  let ?r = "finish_step ent s"
  show ?case
  proof (cases "m = m0")
    case True
    with Cons.prems ent have "m \<notin> fst ` set ents" by auto
    from for_each_finish_step_other(3) [OF this] finish_step_self(1) [of m n0 an0 s] True ent
    show ?thesis by (simp add: for_each_snd_Cons)
  next
    case False
    with Cons.prems ent have d: "distinct (map fst ents)" and i: "m \<in> fst ` set ents" by auto
    from False ent have ne: "m \<noteq> fst ent" by simp
    have e: "errors (snd ?r) m = errors s m"
      by (simp add: finish_step_other(1) [OF ne])
    have f: "finalize_calls m (trace (snd ?r)) = finalize_calls m (trace s)"
      by (simp add: finish_step_other(3) [OF ne])
    have h: "has_analyze_action_error (errors (snd ?r)) m = has_analyze_action_error (errors s) m"
      by (simp add: has_analyze_action_error_def e)
    from Cons.IH [OF d i, of "snd ?r"]
    show ?thesis by (simp add: for_each_snd_Cons h f)
  qed
qed

lemma for_each_finish_step_partial:
  assumes "has_analyze_action_error (errors s) m"
    and "distinct (map fst ents)" and "m \<in> fst ` set ents"
  shows "errors (snd (for_each finish_step ents s)) m = errors s m \<and>
         results (snd (for_each finish_step ents s)) m =
           Some (Partial (case errors s m of None \<Rightarrow> [] | Some msg \<Rightarrow> msg))"
  using assms
proof (induction ents arbitrary: s)
  case Nil
  then show ?case by simp
next
  case (Cons ent ents)
  obtain m0 n0 an0 where ent: "ent = (m0, n0, an0)" by (cases ent) auto
  let ?r = "finish_step ent s"
  show ?case
  proof (cases "m = m0")
    case True
    with Cons.prems ent have "m \<notin> fst ` set ents" by auto
    from for_each_finish_step_other(1,2) [OF this] finish_step_self(2) [of s m n0 an0] True ent
      Cons.prems(1)
    show ?thesis by (simp add: for_each_snd_Cons)
  next
    case False
    with Cons.prems ent have d: "distinct (map fst ents)" and i: "m \<in> fst ` set ents" by auto
    from False ent have ne: "m \<noteq> fst ent" by simp
    have e: "errors (snd ?r) m = errors s m"
      by (simp add: finish_step_other(1) [OF ne])
    have r: "results (snd ?r) m = results s m"
      by (simp add: finish_step_other(2) [OF ne])
    have "has_analyze_action_error (errors (snd ?r)) m"
      using Cons.prems(1) by (simp add: has_analyze_action_error_def e)
    from Cons.IH [OF this d i]
    show ?thesis by (simp add: for_each_snd_Cons e r)
  qed
qed

lemma finish_frame:
  "entered (trace (finish s)) = entered (trace s)"
  "calls_of m (trace (finish s)) = calls_of m (trace s)"
proof -
  show "entered (trace (finish s)) = entered (trace s)"
    using for_each_keeps [where f = "\<lambda>s. entered (trace s)" and body = finish_step]
    by (simp add: finish_def Let_def finish_step_frame)
  show "calls_of m (trace (finish s)) = calls_of m (trace s)"
    using for_each_keeps [where f = "\<lambda>s. calls_of m (trace s)" and body = finish_step]
    by (simp add: finish_def Let_def finish_step_frame)
qed

lemma finish_prefix: "\<exists>u. trace (finish s) = trace s @ u"
proof -
  have "\<exists>u. trace (snd (for_each finish_step ents s)) = trace s @ u"
    for ents and s :: "('a, 'b, 'c) scheduler"
  proof (induction ents arbitrary: s)
    case Nil
    then show ?case by simp
  next
    case (Cons ent ents)
    from finish_step_prefix [of ent s] Cons [of "snd (finish_step ent s)"] show ?case
      by (auto simp: for_each_snd_Cons)
  qed
  then show ?thesis by (simp add: finish_def Let_def)
qed

lemma finish_self:
  assumes "distinct (map fst (iter_analyzers s))" and "m \<in> fst ` set (iter_analyzers s)"
  shows "finalize_calls m (trace (finish s)) =
           finalize_calls m (trace s) + (if has_analyze_action_error (errors s) m then 0 else 1)"
    and "has_analyze_action_error (errors s) m \<Longrightarrow>
           errors (finish s) m = errors s m \<and>
           results (finish s) m = Some (Partial (case errors s m of None \<Rightarrow> [] | Some msg \<Rightarrow> msg))"
  using for_each_finish_step_count [OF assms, of s] for_each_finish_step_partial [OF _ assms, of s]
  by (simp_all add: finish_def Let_def)

subsection \<open>The static loop\<close>

lemma static_step_key: "fst (fst (static_step t ent s)) = fst ent"
  by (cases ent) (simp add: static_step_def Let_def split: sum.splits)

lemma static_step_other:
  assumes "m \<noteq> fst ent"
  shows "errors (snd (static_step t ent s)) m = errors s m"
    and "results (snd (static_step t ent s)) m = results s m"
    and "analyze_calls m (trace (snd (static_step t ent s))) = analyze_calls m (trace s)"
  using assms
  by (cases ent; simp add: static_step_def Let_def tick_def split: sum.splits)+

lemma static_step_self:
  "analyze_calls m (trace (snd (static_step None (m, n, an, False) s))) = Suc (analyze_calls m (trace s))"
  "snd (an_analyze an (an_state an)) = Inl e \<Longrightarrow>
     errors (snd (static_step None (m, n, an, False) s)) m = Some (message e) \<and>
     results (snd (static_step None (m, n, an, False) s)) m = Some (Error (message e))"
  "snd (an_analyze an (an_state an)) = Inr r \<Longrightarrow>
     errors (snd (static_step None (m, n, an, False) s)) m = errors s m \<and>
     results (snd (static_step None (m, n, an, False) s)) m = Some (Success r)"
  by (simp_all add: static_step_def Let_def split: sum.splits)

lemma for_each_static_step_other:
  assumes "m \<notin> fst ` set ents"
  shows "errors (snd (for_each (static_step t) ents s)) m = errors s m"
    and "results (snd (for_each (static_step t) ents s)) m = results s m"
    and "analyze_calls m (trace (snd (for_each (static_step t) ents s))) = analyze_calls m (trace s)"
proof -
  have ne: "m \<noteq> fst x" if "x \<in> set ents" for x using that assms by auto
  show "errors (snd (for_each (static_step t) ents s)) m = errors s m"
    by (rule for_each_keeps [where f = "\<lambda>s. errors s m"]) (simp add: static_step_other ne)
  show "results (snd (for_each (static_step t) ents s)) m = results s m"
    by (rule for_each_keeps [where f = "\<lambda>s. results s m"]) (simp add: static_step_other ne)
  show "analyze_calls m (trace (snd (for_each (static_step t) ents s))) = analyze_calls m (trace s)"
    by (rule for_each_keeps [where f = "\<lambda>s. analyze_calls m (trace s)"])
       (simp add: static_step_other ne)
qed

lemma static_entry_split:
  assumes d: "distinct (map fst (ent # ents))" and i: "(m, n, an, False) \<in> set (ent # ents)"
  shows "(ent = (m, n, an, False) \<and> m \<notin> fst ` set ents) \<or>
      (m \<noteq> fst ent \<and> distinct (map fst ents) \<and> (m, n, an, False) \<in> set ents)"
proof (cases "ent = (m, n, an, False)")
  case True
  from d have "fst ent \<notin> fst ` set ents" by simp
  with True show ?thesis by simp
next
  case False
  with i have mem: "(m, n, an, False) \<in> set ents" by simp
  then have "m \<in> fst ` set ents" by force
  moreover from d have "fst ent \<notin> fst ` set ents" by simp
  ultimately have "m \<noteq> fst ent" by blast
  with d mem show ?thesis by simp
qed

lemma for_each_static_step_count:
  assumes "distinct (map fst ents)" and "(m, n, an, False) \<in> set ents"
  shows "analyze_calls m (trace (snd (for_each (static_step None) ents s))) =
           Suc (analyze_calls m (trace s))"
  using assms
proof (induction ents arbitrary: s)
  case Nil
  then show ?case by simp
next
  case (Cons ent ents)
  let ?r = "static_step None ent s"
  from static_entry_split [OF Cons.prems] show ?case
  proof
    assume "ent = (m, n, an, False) \<and> m \<notin> fst ` set ents"
    then have "m \<notin> fst ` set ents" and "ent = (m, n, an, False)" by auto
    from for_each_static_step_other(3) [OF this(1)] static_step_self(1) [of m n an s] this(2)
    show ?thesis by (simp add: for_each_snd_Cons)
  next
    assume "m \<noteq> fst ent \<and> distinct (map fst ents) \<and> (m, n, an, False) \<in> set ents"
    then have ne: "m \<noteq> fst ent" and d: "distinct (map fst ents)"
      and i: "(m, n, an, False) \<in> set ents" by auto
    have f: "analyze_calls m (trace (snd ?r)) = analyze_calls m (trace s)"
      by (simp add: static_step_other(3) [OF ne])
    from Cons.IH [OF d i, of "snd ?r"]
    show ?thesis by (simp add: for_each_snd_Cons f)
  qed
qed

lemma for_each_static_step_error:
  assumes "snd (an_analyze an (an_state an)) = Inl e"
    and "distinct (map fst ents)" and "(m, n, an, False) \<in> set ents"
  shows "errors (snd (for_each (static_step None) ents s)) m = Some (message e) \<and>
         results (snd (for_each (static_step None) ents s)) m = Some (Error (message e))"
  using assms
proof (induction ents arbitrary: s)
  case Nil
  then show ?case by simp
next
  case (Cons ent ents)
  let ?r = "static_step None ent s"
  from static_entry_split [OF Cons.prems(2,3)] show ?case
  proof
    assume "ent = (m, n, an, False) \<and> m \<notin> fst ` set ents"
    then have "m \<notin> fst ` set ents" and "ent = (m, n, an, False)" by auto
    from for_each_static_step_other(1,2) [OF this(1)] static_step_self(2) [OF Cons.prems(1), of m n s]
      this(2)
    show ?thesis by (simp add: for_each_snd_Cons)
  next
    assume "m \<noteq> fst ent \<and> distinct (map fst ents) \<and> (m, n, an, False) \<in> set ents"
    then have ne: "m \<noteq> fst ent" and d: "distinct (map fst ents)"
      and i: "(m, n, an, False) \<in> set ents" by auto
    from Cons.IH [OF Cons.prems(1) d i, of "snd ?r"]
    show ?thesis by (simp add: for_each_snd_Cons)
  qed
qed

lemma for_each_static_step_success:
  assumes "snd (an_analyze an (an_state an)) = Inr r"
    and "distinct (map fst ents)" and "(m, n, an, False) \<in> set ents"
  shows "errors (snd (for_each (static_step None) ents s)) m = errors s m \<and>
         results (snd (for_each (static_step None) ents s)) m = Some (Success r)"
  using assms
proof (induction ents arbitrary: s)
  case Nil
  then show ?case by simp
next
  case (Cons ent ents)
  let ?r = "static_step None ent s"
  from static_entry_split [OF Cons.prems(2,3)] show ?case
  proof
    assume "ent = (m, n, an, False) \<and> m \<notin> fst ` set ents"
    then have "m \<notin> fst ` set ents" and "ent = (m, n, an, False)" by auto
    from for_each_static_step_other(1,2) [OF this(1)] static_step_self(3) [OF Cons.prems(1), of m n s]
      this(2)
    show ?thesis by (simp add: for_each_snd_Cons)
  next
    assume "m \<noteq> fst ent \<and> distinct (map fst ents) \<and> (m, n, an, False) \<in> set ents"
    then have ne: "m \<noteq> fst ent" and d: "distinct (map fst ents)"
      and i: "(m, n, an, False) \<in> set ents" by auto
    have e: "errors (snd ?r) m = errors s m"
      by (simp add: static_step_other(1) [OF ne])
    from Cons.IH [OF Cons.prems(1) d i, of "snd ?r"]
    show ?thesis by (simp add: for_each_snd_Cons e)
  qed
qed

subsection \<open>The static loop once the timeout flag is set\<close>

lemma static_step_timed_out:
  "timed_out t s \<Longrightarrow> timed_out t (snd (static_step t ent s))"
  by (cases ent) (auto simp: static_step_def timed_out_def tick_def split: option.splits)

lemma static_step_skipped:
  "timed_out t s \<Longrightarrow>
     analyze_calls m (trace (snd (static_step t ent s))) = analyze_calls m (trace s)"
  "timed_out t s \<Longrightarrow> errors (snd (static_step t (m, n, an, False) s)) m = Some timeout_skipped"
  by (cases ent; simp add: static_step_def tick_def)+

lemma for_each_static_step_skipped:
  "timed_out t s \<Longrightarrow>
     analyze_calls m (trace (snd (for_each (static_step t) ents s))) = analyze_calls m (trace s)"
proof (induction ents arbitrary: s)
  case Nil
  then show ?case by simp
next
  case (Cons ent ents)
  from Cons.IH [OF static_step_timed_out [OF Cons.prems], of ent] static_step_skipped(1) [OF Cons.prems]
  show ?case by (simp add: for_each_snd_Cons)
qed

lemma for_each_static_step_skipped_entry:
  assumes "timed_out t s" and "distinct (map fst ents)" and "(m, n, an, False) \<in> set ents"
  shows "errors (snd (for_each (static_step t) ents s)) m = Some timeout_skipped"
  using assms
proof (induction ents arbitrary: s)
  case Nil
  then show ?case by simp
next
  case (Cons ent ents)
  let ?r = "static_step t ent s"
  from static_entry_split [OF Cons.prems(2,3)] show ?case
  proof
    assume "ent = (m, n, an, False) \<and> m \<notin> fst ` set ents"
    then have "m \<notin> fst ` set ents" and "ent = (m, n, an, False)" by auto
    from for_each_static_step_other(1) [OF this(1)] static_step_skipped(2) [OF Cons.prems(1), of m n an]
      this(2)
    show ?thesis by (simp add: for_each_snd_Cons)
  next
    assume "m \<noteq> fst ent \<and> distinct (map fst ents) \<and> (m, n, an, False) \<in> set ents"
    then have d: "distinct (map fst ents)" and i: "(m, n, an, False) \<in> set ents" by auto
    from Cons.IH [OF static_step_timed_out [OF Cons.prems(1)] d i]
    show ?thesis by (simp add: for_each_snd_Cons)
  qed
qed

lemma static_module_skipped:
  assumes "timed_out t s" and "distinct (map fst analyzers)" and "(m, n, an, False) \<in> set analyzers"
  shows "analyze_calls m (trace (snd (run_static_analyzers t analyzers s))) = analyze_calls m (trace s) \<and>
         errors (snd (run_static_analyzers t analyzers s)) m = Some timeout_skipped"
  using for_each_static_step_skipped [OF assms(1)] for_each_static_step_skipped_entry [OF assms]
  by (simp add: run_static_analyzers_def)

subsection \<open>The analyzers that need the iteration\<close>

lemma needing_iteration_keys:
  "map fst (needing_iteration analyzers) = map fst (filter (\<lambda>ent. snd (snd (snd ent))) analyzers)"
  by (simp add: needing_iteration_def comp_def)

lemma needing_iteration_distinct:
  "distinct (map fst analyzers) \<Longrightarrow> distinct (map fst (needing_iteration analyzers))"
  by (simp add: needing_iteration_keys distinct_map_filter)

lemma needing_iteration_map_of:
  assumes "distinct (map fst analyzers)" and "(m, n, an, True) \<in> set analyzers"
  shows "map_of (needing_iteration analyzers) m = Some (n, an)"
proof -
  have "(m, n, an) \<in> set (needing_iteration analyzers)"
    using assms(2) by (force simp: needing_iteration_def)
  with needing_iteration_distinct [OF assms(1)] show ?thesis by simp
qed

lemma analyze_action_failed_marked:
  "has_analyze_action_error (errs(m \<mapsto> analyze_action_failed e)) m"
proof -
  have "sublist ''analyze_action'' (''analyze_action'' @ x)" for x :: string
    by (rule sublist_append_rightI)
  then show ?thesis
    by (simp add: has_analyze_action_error_def analyze_action_failed_def)
qed

lemma has_analyze_action_error_failed:
  "errs m = Some (analyze_action_failed e) \<Longrightarrow> has_analyze_action_error errs m"
  using analyze_action_failed_marked [of "errs" m e] by (simp add: has_analyze_action_error_def)

lemma module_calls_prefix: "prefix (fst (module_calls an ds st)) (map fst ds)"
  by (induction ds arbitrary: st) (simp_all add: Let_def split: option.splits)

lemma fold_view_step_calls:
  "\<exists>u. snd (snd (fold (\<lambda>d. view_step (fst d) (snd d)) ds (x, err, cs))) = cs @ u \<and>
       prefix u (map fst ds)"
proof (cases x)
  case None
  then show ?thesis by (simp add: fold_view_step_idle)
next
  case (Some na)
  obtain n an where na: "na = (n, an)" by (cases na) auto
  show ?thesis
  proof (cases err)
    case None
    with Some na show ?thesis
      by (simp add: fold_view_step_module module_calls_prefix)
  next
    case (Some msg)
    with \<open>x = Some na\<close> show ?thesis by (simp add: fold_view_step_idle)
  qed
qed

text \<open>
  The state in which \<^verbatim>\<open>run_iteration_analyzers\<close> starts its traversal, and the state when
  the traversal is over.
\<close>

definition iteration_start ::
  "('s, 'p, 'r) entry list \<Rightarrow> ('s, 'p, 'r) scheduler \<Rightarrow> ('s, 'p, 'r) scheduler" where
  "iteration_start analyzers s = s\<lparr>iter_analyzers := needing_iteration analyzers, processed := 0\<rparr>"

definition after_traversal ::
  "action_flags \<Rightarrow> 'p controller \<Rightarrow> nat option \<Rightarrow> ('s, 'p, 'r) entry list
     \<Rightarrow> ('s, 'p, 'r) scheduler \<Rightarrow> ('s, 'p, 'r) scheduler" where
  "after_traversal rd c t analyzers s = traverse rd c t (iteration_start analyzers s)"

lemma run_iteration_analyzers_eq:
  "needing_iteration analyzers \<noteq> [] \<Longrightarrow>
     run_iteration_analyzers rd c t analyzers s = finish (after_traversal rd c t analyzers s)"
  by (simp add: run_iteration_analyzers_def after_traversal_def iteration_start_def)

lemma after_traversal_keys:
  "map fst (iter_analyzers (after_traversal rd c t analyzers s)) = map fst (needing_iteration analyzers)"
  by (simp add: after_traversal_def traverse_def process_keys iteration_start_def)

lemma after_traversal_view:
  assumes "distinct (map fst analyzers)"
  shows "view m (after_traversal rd c None analyzers s) =
     fold (\<lambda>d. view_step (fst d) (snd d)) (replayed_list rd c (GetRootActions c))
       (map_of (needing_iteration analyzers) m, errors s m, calls_of m (trace s))"
proof -
  have "distinct (map fst (iter_analyzers (iteration_start analyzers s)))"
    using needing_iteration_distinct [OF assms] by (simp add: iteration_start_def)
  from process_view(2) [OF refl this]
  show ?thesis by (simp add: after_traversal_def traverse_def view_def iteration_start_def)
qed

lemma after_traversal_frame:
  "finalize_calls m (trace (after_traversal rd c t analyzers s)) = finalize_calls m (trace s)"
  "results (after_traversal rd c t analyzers s) = results s"
  by (simp_all add: after_traversal_def traverse_def process_frame iteration_start_def)

lemma iteration_module:
  assumes d: "distinct (map fst analyzers)" and i: "(m, n, an, True) \<in> set analyzers"
    and fresh: "errors s m = None"
  shows "calls_of m (trace (run_iteration_analyzers rd c None analyzers s)) =
           calls_of m (trace s) @ fst (module_calls an (replayed_list rd c (GetRootActions c)) (an_state an)) \<and>
         (case fst (snd (module_calls an (replayed_list rd c (GetRootActions c)) (an_state an))) of
            None \<Rightarrow>
              finalize_calls m (trace (run_iteration_analyzers rd c None analyzers s)) =
                Suc (finalize_calls m (trace s))
          | Some e \<Rightarrow>
              errors (run_iteration_analyzers rd c None analyzers s) m = Some (analyze_action_failed e) \<and>
              results (run_iteration_analyzers rd c None analyzers s) m =
                Some (Partial (analyze_action_failed e)) \<and>
              finalize_calls m (trace (run_iteration_analyzers rd c None analyzers s)) =
                finalize_calls m (trace s))"
proof -
  let ?mc = "module_calls an (replayed_list rd c (GetRootActions c)) (an_state an)"
  let ?st = "after_traversal rd c None analyzers s"
  have mo: "map_of (needing_iteration analyzers) m = Some (n, an)"
    by (rule needing_iteration_map_of [OF d i])
  then have ne: "needing_iteration analyzers \<noteq> []" by auto
  have run: "run_iteration_analyzers rd c None analyzers s = finish ?st"
    by (rule run_iteration_analyzers_eq [OF ne])
  have "view m ?st =
      (Some (n, an\<lparr>an_state := snd (snd ?mc)\<rparr>), map_option analyze_action_failed (fst (snd ?mc)),
       calls_of m (trace s) @ fst ?mc)"
    by (simp add: after_traversal_view [OF d] mo fresh fold_view_step_module)
  then have err: "errors ?st m = map_option analyze_action_failed (fst (snd ?mc))"
    and calls: "calls_of m (trace ?st) = calls_of m (trace s) @ fst ?mc"
    by (simp_all add: view_def)
  have dk: "distinct (map fst (iter_analyzers ?st))"
    using needing_iteration_distinct [OF d] by (simp add: after_traversal_keys)
  have "m \<in> fst ` set (needing_iteration analyzers)"
    using mo by (metis map_of_SomeD fst_conv image_eqI)
  then have mk: "m \<in> fst ` set (iter_analyzers ?st)"
    using after_traversal_keys [of rd c None analyzers s] by (metis set_map)
  note fin = finish_self [OF dk mk]
  have c: "calls_of m (trace (finish ?st)) = calls_of m (trace s) @ fst ?mc"
    by (simp add: finish_frame calls)
  show ?thesis
  proof (cases "fst (snd ?mc)")
    case None
    then have "\<not> has_analyze_action_error (errors ?st) m"
      by (simp add: has_analyze_action_error_def err)
    with fin(1) None c show ?thesis
      by (simp add: run after_traversal_frame)
  next
    case (Some e)
    then have e: "errors ?st m = Some (analyze_action_failed e)" by (simp add: err)
    then have h: "has_analyze_action_error (errors ?st) m"
      by (rule has_analyze_action_error_failed)
    from fin(1) fin(2) [OF h] h e Some c show ?thesis
      by (simp add: run after_traversal_frame)
  qed
qed

lemma static_module:
  assumes d: "distinct (map fst analyzers)" and i: "(m, n, an, False) \<in> set analyzers"
  shows "analyze_calls m (trace (snd (run_static_analyzers None analyzers s))) =
           Suc (analyze_calls m (trace s)) \<and>
         (case snd (an_analyze an (an_state an)) of
            Inl e \<Rightarrow>
              errors (snd (run_static_analyzers None analyzers s)) m = Some (message e) \<and>
              results (snd (run_static_analyzers None analyzers s)) m = Some (Error (message e))
          | Inr r \<Rightarrow>
              errors (snd (run_static_analyzers None analyzers s)) m = errors s m \<and>
              results (snd (run_static_analyzers None analyzers s)) m = Some (Success r))"
proof (cases "snd (an_analyze an (an_state an))")
  case (Inl e)
  from for_each_static_step_count [OF d i, of s] for_each_static_step_error [OF Inl d i, of s] Inl
  show ?thesis by (simp add: run_static_analyzers_def)
next
  case (Inr r)
  from for_each_static_step_count [OF d i, of s] for_each_static_step_success [OF Inr d i, of s] Inr
  show ?thesis by (simp add: run_static_analyzers_def)
qed

subsection \<open>Examples\<close>

text \<open>
  An assignment of the flag bits, an analyzer whose methods \<^verbatim>\<open>analyze\<close> and
  \<^verbatim>\<open>analyze_action\<close> raise, and one whose methods all return. They have no attributes,
  and neither the pipeline state nor the result dictionary carries anything.
\<close>

definition example_flags :: action_flags where
  "example_flags = \<lparr>Drawcall = 2, Dispatch = 4, Clear = 1, Copy = 1024, PushMarker = 64\<rparr>"

definition failing_analyzer :: "(unit, unit, unit) analyzer" where
  "failing_analyzer =
     \<lparr>an_state = (),
      an_analyze = (\<lambda>s. (s, Inl (Exception ''boom''))),
      an_analyze_action = (\<lambda>a p s. (s, Some (Exception ''boom''))),
      an_finalize = (\<lambda>s. (s, None))\<rparr>"

definition sound_analyzer :: "(unit, unit, unit) analyzer" where
  "sound_analyzer =
     \<lparr>an_state = (),
      an_analyze = (\<lambda>s. (s, Inr ())),
      an_analyze_action = (\<lambda>a p s. (s, None)),
      an_finalize = (\<lambda>s. (s, None))\<rparr>"

text \<open>
  A frame of a marker that holds two draws, on a controller whose replay always succeeds.
\<close>

definition draw1 :: action where
  "draw1 = Action 2 1 (Some 3) (Some 1) []"

definition draw2 :: action where
  "draw2 = Action 2 2 (Some 6) (Some 1) []"

definition example_controller :: "unit controller" where
  "example_controller =
     \<lparr>GetRootActions = [Action 64 0 None None [draw1, draw2]],
      SetFrameEvent = (\<lambda>eid. None),
      GetPipelineState = (\<lambda>eid. Inr ())\<rparr>"

text \<open>
  A frame of one draw that holds another draw, on a controller whose \<^verbatim>\<open>SetFrameEvent\<close>
  raises at event 1, the outer draw.
\<close>

definition nested_draw :: action where
  "nested_draw = Action 2 1 (Some 3) (Some 1) [draw2]"

definition failing_controller :: "unit controller" where
  "failing_controller =
     \<lparr>GetRootActions = [nested_draw],
      SetFrameEvent = (\<lambda>eid. if eid = 1 then Some (Exception ''replay failed'') else None),
      GetPipelineState = (\<lambda>eid. Inr ())\<rparr>"

definition example_analyzers :: "(unit, unit, unit) entry list" where
  "example_analyzers =
     [(''basic_stats'', ''Basic'', failing_analyzer, False),
      (''memory'', ''Memory'', sound_analyzer, False),
      (''vertex_attrs'', ''Vertex'', failing_analyzer, True),
      (''overdraw'', ''Overdraw'', sound_analyzer, True)]"

lemmas example_defs =
  example_flags_def failing_analyzer_def sound_analyzer_def draw1_def draw2_def
  example_controller_def nested_draw_def failing_controller_def example_analyzers_def

lemmas scheduler_defs =
  run_iteration_analyzers_def needing_iteration_def traverse_def finish_def finish_step_def
  call_analyzers_def analyzer_step_def run_static_analyzers_def static_step_def
  scheduler_init_def has_flag_def Let_def for_each.simps(2) log_event_def tick_def timed_out_def
  has_analyze_action_error_def analyze_action_failed_def

lemma example_run:
  "trace (run_iteration_analyzers example_flags example_controller None example_analyzers scheduler_init) =
     [EnterAction (Action 64 0 None None [draw1, draw2]),
      EnterAction draw1, CallSetFrameEvent 1, CallGetPipelineState,
      CallAnalyzeAction ''vertex_attrs'' draw1, CallAnalyzeAction ''overdraw'' draw1,
      EnterAction draw2, CallSetFrameEvent 2, CallGetPipelineState,
      CallAnalyzeAction ''overdraw'' draw2,
      CallFinalize ''overdraw'', CallAnalyze ''overdraw'']"
  by (simp add: example_defs scheduler_defs sublist_Cons_right)

subsection \<open>Only draws and dispatches are replayed and analysed\<close>

text \<open>The event ids that \<^verbatim>\<open>SetFrameEvent\<close> was called with.\<close>

definition replays :: "event list \<Rightarrow> int list" where
  "replays t = concat (map (\<lambda>e. case e of CallSetFrameEvent i \<Rightarrow> [i] | _ \<Rightarrow> []) t)"

lemma replays_append [simp]: "replays (t @ u) = replays t @ replays u"
  by (simp add: replays_def)

lemma replays_Cons [simp]:
  "replays [] = []"
  "replays (EnterAction a # t) = replays t"
  "replays (CallSetFrameEvent i # t) = i # replays t"
  "replays (CallGetPipelineState # t) = replays t"
  "replays (CallAnalyzeAction m a # t) = replays t"
  "replays (CallFinalize m # t) = replays t"
  "replays (CallAnalyze m # t) = replays t"
  by (simp_all add: replays_def)

lemma analyzer_step_calls:
  "set (calls_of m (trace (snd (analyzer_step a p ent s)))) \<subseteq> insert a (set (calls_of m (trace s)))"
  "replays (trace (snd (analyzer_step a p ent s))) = replays (trace s)"
  by (cases ent; auto simp: analyzer_step_def Let_def log_event_def split: option.splits)+

lemma call_analyzers_calls:
  "set (calls_of m (trace (call_analyzers a p s))) \<subseteq> insert a (set (calls_of m (trace s)))"
  "replays (trace (call_analyzers a p s)) = replays (trace s)"
proof -
  have "set (calls_of m (trace (snd (for_each (analyzer_step a p) ents s)))) \<subseteq>
      insert a (set (calls_of m (trace s)))" for ents and s :: "('a, 'b, 'c) scheduler"
  proof (induction ents arbitrary: s)
    case Nil
    then show ?case by auto
  next
    case (Cons ent ents)
    from Cons [of "snd (analyzer_step a p ent s)"] analyzer_step_calls(1) [of m a p ent s]
    show ?case by (auto simp: for_each_snd_Cons)
  qed
  then show "set (calls_of m (trace (call_analyzers a p s))) \<subseteq> insert a (set (calls_of m (trace s)))"
    by (simp add: call_analyzers_def Let_def)
  show "replays (trace (call_analyzers a p s)) = replays (trace s)"
    using for_each_keeps [where f = "\<lambda>s. replays (trace s)" and body = "analyzer_step a p"]
    by (simp add: call_analyzers_def Let_def analyzer_step_calls)
qed

lemma process_only_draws:
  "set (calls_of m (trace (process_action rd c t a s))) \<subseteq>
     set (calls_of m (trace s)) \<union> {x \<in> set (subtree a). draw_or_dispatch rd x} \<and>
   set (replays (trace (process_action rd c t a s))) \<subseteq>
     set (replays (trace s)) \<union> eventId ` {x \<in> set (subtree a). draw_or_dispatch rd x}"
  "set (calls_of m (trace (process_children rd c t as s))) \<subseteq>
     set (calls_of m (trace s)) \<union> {x \<in> set (forest as). draw_or_dispatch rd x} \<and>
   set (replays (trace (process_children rd c t as s))) \<subseteq>
     set (replays (trace s)) \<union> eventId ` {x \<in> set (forest as). draw_or_dispatch rd x}"
proof (induction rd c t a s and rd c t as s rule: process_action_process_children.induct)
  case (1 rd controller timeout_after fl eid ni nn cs s)
  let ?a = "Action fl eid ni nn cs"
  let ?s1 = "log_event (EnterAction ?a) (tick s)"
  show ?case
  proof (cases "timed_out timeout_after s")
    case True
    then show ?thesis by simp
  next
    case to: False
    show ?thesis
    proof (cases "has_flag fl (Drawcall rd) \<or> has_flag fl (Dispatch rd)")
      case False
      from "1.IH"(2) [OF to refl False] to False show ?thesis
        by (auto simp: Let_def)
    next
      case True
      then have dd: "draw_or_dispatch rd ?a" by (simp add: draw_or_dispatch_def)
      then have "?a \<in> {x \<in> set (subtree ?a). draw_or_dispatch rd x}" by simp
      then have "eventId ?a \<in> eventId ` {x \<in> set (subtree ?a). draw_or_dispatch rd x}"
        by (rule imageI)
      then have mem: "eid \<in> eventId ` {x \<in> set (subtree ?a). draw_or_dispatch rd x}" by simp
      let ?s3 = "log_event (CallSetFrameEvent eid) (?s1\<lparr>processed := processed ?s1 + 1\<rparr>)"
      let ?s4 = "log_event CallGetPipelineState ?s3"
      show ?thesis
      proof (cases "SetFrameEvent controller eid")
        case (Some e)
        with to True dd mem show ?thesis by (auto simp: Let_def)
      next
        case None
        show ?thesis
        proof (cases "GetPipelineState controller eid")
          case (Inl e)
          with to True None dd mem show ?thesis by (auto simp: Let_def)
        next
          case (Inr pipe)
          let ?s5 = "call_analyzers ?a pipe ?s4"
          have c5: "set (calls_of m (trace ?s5)) \<subseteq> insert ?a (set (calls_of m (trace s)))"
            using call_analyzers_calls(1) [of m ?a pipe ?s4] by simp
          have r5: "replays (trace ?s5) = replays (trace s) @ [eid]"
            by (simp add: call_analyzers_calls(2))
          have run: "process_action rd controller timeout_after ?a s =
              process_children rd controller timeout_after cs ?s5"
            using to True None Inr by (simp add: Let_def)
          from "1.IH"(1) [OF to refl True refl refl None refl Inr] c5 r5 dd mem
          show ?thesis unfolding run by (auto simp del: process_action.simps)
        qed
      qed
    qed
  qed
next
  case (2 rd controller timeout_after s)
  then show ?case by simp
next
  case (3 rd controller timeout_after c cs s)
  show ?case
  proof (cases "timed_out timeout_after s")
    case True
    then show ?thesis by simp
  next
    case False
    have run: "process_children rd controller timeout_after (c # cs) s =
        process_children rd controller timeout_after cs
          (process_action rd controller timeout_after c (tick s))"
      using False by simp
    let ?D = "\<lambda>xs. {x \<in> set xs. draw_or_dispatch rd x}"
    have sub: "?D (subtree c) \<subseteq> ?D (forest (c # cs))" "?D (forest cs) \<subseteq> ?D (forest (c # cs))"
      by auto
    have img: "eventId ` ?D (subtree c) \<subseteq> eventId ` ?D (forest (c # cs))"
      "eventId ` ?D (forest cs) \<subseteq> eventId ` ?D (forest (c # cs))"
      by (rule image_mono [OF sub(1)], rule image_mono [OF sub(2)])
    have t: "trace (tick s) = trace s" by simp
    from "3.IH"(1) [OF False] "3.IH"(2) [OF False] sub img
    show ?thesis unfolding run t by blast
  qed
qed

text \<open>
  Whatever the timer and the replay engine do, the traversal calls \<^verbatim>\<open>SetFrameEvent\<close> and
  \<^verbatim>\<open>analyze_action\<close> for draws and dispatches of the frame only: an action without these
  flags is entered and its children are processed, nothing else.
\<close>

lemma traverse_only_draws:
  assumes "trace s = []"
  shows "set (calls_of m (trace (traverse rd c t s))) \<subseteq>
           {x \<in> set (forest (GetRootActions c)). draw_or_dispatch rd x}"
    and "set (replays (trace (traverse rd c t s))) \<subseteq>
           eventId ` {x \<in> set (forest (GetRootActions c)). draw_or_dispatch rd x}"
  using process_only_draws(2) [of m rd c t "GetRootActions c" s] assms
  by (simp_all add: traverse_def)

section \<open>The claims on the scheduler\<close>

text \<open>
  Claim C1, as stated: in \<^verbatim>\<open>run_iteration_analyzers\<close> all enabled analyzers that require the
  iteration share one traversal that visits every action once, \<^verbatim>\<open>analyze_action\<close> runs at
  most once per analyzer and visited draw, and \<^verbatim>\<open>finalize\<close> is called once per analyzer
  after the traversal. The last part fails: on a frame of one draw, without timeout and with
  a replay that succeeds, an analyzer whose \<^verbatim>\<open>analyze_action\<close> raises is entered in
  \<^verbatim>\<open>self.errors\<close>, and the last loop then reports it as \<^verbatim>\<open>partial\<close> without calling its
  \<^verbatim>\<open>finalize\<close>.
\<close>

theorem finalize_skipped_counterexample:
  "finalize_calls ''vertex_attrs''
     (trace (run_iteration_analyzers example_flags example_controller None
        [(''vertex_attrs'', ''Vertex'', failing_analyzer, True)] scheduler_init)) \<noteq> 1"
  by (simp add: example_defs scheduler_defs sublist_Cons_right)

text \<open>
  Claim C1, amended. Let the analyzers have distinct module ids, at least one of them
  require the iteration, no timeout occur and the replay of every draw and dispatch of the
  frame succeed. Then the one traversal of \<^verbatim>\<open>run_iteration_analyzers\<close> enters every action
  reachable from the root actions exactly once, in pre-order; the actions on which
  \<^verbatim>\<open>analyze_action\<close> of a module is called are, in order, among the draws and dispatches
  entered, each at most once; \<^verbatim>\<open>finalize\<close> of an iteration analyzer is called exactly once
  unless an \<^verbatim>\<open>analyze_action\<close> error is recorded for it when the traversal ends, and then
  not at all; and every call of \<^verbatim>\<open>finalize\<close> comes after the whole traversal.
\<close>

theorem shared_traversal:
  assumes "distinct (map fst analyzers)"
    and "needing_iteration analyzers \<noteq> []"
    and "\<forall>x\<in>set (forest (GetRootActions c)). draw_or_dispatch rd x \<longrightarrow> replay c (eventId x) \<noteq> None"
    and "trace s = []"
  shows "entered (trace (run_iteration_analyzers rd c None analyzers s)) = forest (GetRootActions c) \<and>
    subseq (calls_of m (trace (run_iteration_analyzers rd c None analyzers s)))
      (filter (draw_or_dispatch rd) (forest (GetRootActions c))) \<and>
    (m \<in> fst ` set (needing_iteration analyzers) \<longrightarrow>
       finalize_calls m (trace (run_iteration_analyzers rd c None analyzers s)) =
         (if has_analyze_action_error (errors (after_traversal rd c None analyzers s)) m then 0 else 1)) \<and>
    (\<exists>u. trace (run_iteration_analyzers rd c None analyzers s) =
            trace (after_traversal rd c None analyzers s) @ u \<and>
          entered u = [] \<and> calls_of m u = [] \<and>
          finalize_calls m (trace (after_traversal rd c None analyzers s)) = 0)"
proof -
  let ?st = "after_traversal rd c None analyzers s"
  have run: "run_iteration_analyzers rd c None analyzers s = finish ?st"
    by (rule run_iteration_analyzers_eq [OF assms(2)])
  have ent_st: "entered (trace ?st) = forest (GetRootActions c)"
    using process_entered(2) [OF refl assms(3), of "iteration_start analyzers s"] assms(4)
    by (simp add: after_traversal_def traverse_def iteration_start_def)
  have a: "entered (trace (finish ?st)) = forest (GetRootActions c)"
    by (simp add: finish_frame ent_st)
  obtain u where u: "snd (snd (view m ?st)) = calls_of m (trace s) @ u"
    and pu: "prefix u (map fst (replayed_list rd c (GetRootActions c)))"
    using fold_view_step_calls
      [of "replayed_list rd c (GetRootActions c)" "map_of (needing_iteration analyzers) m"
          "errors s m" "calls_of m (trace s)"]
    by (auto simp: after_traversal_view [OF assms(1)])
  have "calls_of m (trace ?st) = u"
    using u assms(4) by (simp add: view_def)
  moreover have "map fst (replayed_list rd c (GetRootActions c)) =
      filter (draw_or_dispatch rd) (forest (GetRootActions c))"
    by (rule replayed_all(2) [OF assms(3)])
  ultimately have b: "subseq (calls_of m (trace (finish ?st)))
      (filter (draw_or_dispatch rd) (forest (GetRootActions c)))"
    using pu by (simp add: finish_frame prefix_imp_subseq)
  have f0: "finalize_calls m (trace ?st) = 0"
    using assms(4) by (simp add: after_traversal_frame)
  have dk: "distinct (map fst (iter_analyzers ?st))"
    using needing_iteration_distinct [OF assms(1)] by (simp add: after_traversal_keys)
  have c: "finalize_calls m (trace (finish ?st)) =
      (if has_analyze_action_error (errors ?st) m then 0 else 1)"
    if "m \<in> fst ` set (needing_iteration analyzers)"
  proof -
    from that have "m \<in> fst ` set (iter_analyzers ?st)"
      using after_traversal_keys [of rd c None analyzers s] by (metis set_map)
    from finish_self(1) [OF dk this] f0 show ?thesis by simp
  qed
  obtain v where v: "trace (finish ?st) = trace ?st @ v"
    using finish_prefix [of ?st] by blast
  have "entered (trace ?st @ v) = entered (trace ?st)"
    using finish_frame(1) [of ?st] v by simp
  then have v1: "entered v = []" by simp
  have "calls_of m (trace ?st @ v) = calls_of m (trace ?st)"
    using finish_frame(2) [of m ?st] v by simp
  then have v2: "calls_of m v = []" by simp
  from a b c v v1 v2 f0 show ?thesis
    unfolding run by blast
qed

theorem shared_traversal_witness:
  "distinct (map fst example_analyzers) \<and>
   needing_iteration example_analyzers \<noteq> [] \<and>
   entered (trace (run_iteration_analyzers example_flags example_controller None example_analyzers
      scheduler_init)) = [Action 64 0 None None [draw1, draw2], draw1, draw2] \<and>
   finalize_calls ''overdraw'' (trace (run_iteration_analyzers example_flags example_controller None
      example_analyzers scheduler_init)) = 1"
proof -
  have d: "distinct (map fst example_analyzers)"
    by (simp add: example_analyzers_def)
  have n: "needing_iteration example_analyzers \<noteq> []"
    by (simp add: example_analyzers_def needing_iteration_def)
  have r: "\<forall>x\<in>set (forest (GetRootActions example_controller)).
      draw_or_dispatch example_flags x \<longrightarrow> replay example_controller (eventId x) \<noteq> None"
    by (simp add: example_controller_def replay_def)
  have t: "trace (scheduler_init :: (unit, unit, unit) scheduler) = []"
    by (simp add: scheduler_init_def)
  have e: "\<not> has_analyze_action_error
      (errors (after_traversal example_flags example_controller None example_analyzers scheduler_init))
      ''overdraw''"
    by (simp add: after_traversal_def iteration_start_def example_defs scheduler_defs)
  have m: "''overdraw'' \<in> fst ` set (needing_iteration example_analyzers)"
    by (simp add: example_analyzers_def needing_iteration_def)
  from shared_traversal [OF d n r t, of "''overdraw''"] d n e m show ?thesis
    by (simp add: example_controller_def draw1_def draw2_def)
qed

text \<open>
  Claim C2, which the code breaks: for every action node, while no timeout has occurred, the
  replay engine is asked to replay up to it if and only if its flags include Drawcall or
  Dispatch. On a draw that holds another draw, with \<^verbatim>\<open>SetFrameEvent\<close> raising at the outer
  one, the handler \<^verbatim>\<open>except Exception: return\<close> leaves \<^verbatim>\<open>process_action\<close> altogether: the
  inner draw is never entered and the replay engine is never asked for it, although its
  flags include Drawcall and no timeout occurred. The trace of the whole run shows it.
  (The other direction holds on every run, see \<open>traverse_only_draws\<close>: an action without
  these flags is never replayed to, and \<^verbatim>\<open>analyze_action\<close> is never called on it.)
\<close>

theorem replay_failure_skips_children:
  "draw_or_dispatch example_flags draw2 \<and>
   draw2 \<in> set (forest (GetRootActions failing_controller)) \<and>
   trace (run_iteration_analyzers example_flags failing_controller None
      [(''overdraw'', ''Overdraw'', sound_analyzer, True)] scheduler_init) =
     [EnterAction nested_draw, CallSetFrameEvent 1, CallFinalize ''overdraw'', CallAnalyze ''overdraw'']"
  by (simp add: example_defs scheduler_defs draw_or_dispatch_def)

text \<open>
  Claim C8, as stated: if the \<^verbatim>\<open>analyze\<close> of one analyzer raises in the static phase, the
  scheduler records the error for that module and still runs every remaining analyzer.
  With the timer firing while the first analyzer runs, the first analyzer raises, its
  error is recorded, and the remaining one is not run: the guard \<^verbatim>\<open>if self.timed_out\<close>
  enters it in \<^verbatim>\<open>self.errors\<close> and goes on.
\<close>

theorem static_timeout_counterexample:
  "snd (an_analyze failing_analyzer (an_state failing_analyzer)) = Inl (Exception ''boom'') \<and>
   results (snd (run_static_analyzers (Some 1)
      [(''basic_stats'', ''Basic'', failing_analyzer, False),
       (''memory'', ''Memory'', sound_analyzer, False)] scheduler_init)) ''basic_stats'' =
     Some (Error ''boom'') \<and>
   analyze_calls ''memory'' (trace (snd (run_static_analyzers (Some 1)
      [(''basic_stats'', ''Basic'', failing_analyzer, False),
       (''memory'', ''Memory'', sound_analyzer, False)] scheduler_init))) = 0 \<and>
   errors (snd (run_static_analyzers (Some 1)
      [(''basic_stats'', ''Basic'', failing_analyzer, False),
       (''memory'', ''Memory'', sound_analyzer, False)] scheduler_init)) ''memory'' =
     Some timeout_skipped"
  by (simp add: example_defs scheduler_defs)

text \<open>
  Claim C8, amended. Let the analyzers have distinct module ids and no timeout occur. In
  the static phase \<^verbatim>\<open>analyze\<close> of every analyzer that does not need the iteration is called
  exactly once, whatever the others do: if it raises, the error text is recorded under its
  module id in \<^verbatim>\<open>self.errors\<close> and in \<^verbatim>\<open>self.results\<close> with status \<^verbatim>\<open>error\<close>, and otherwise
  its result is recorded with status \<^verbatim>\<open>success\<close>. In the traversal, \<^verbatim>\<open>analyze_action\<close> of an
  analyzer that needs the iteration and has no error yet is called on the replayed draws
  and dispatches in order, up to and including the first one at which it raises; that first
  error is recorded, the module is reported as \<^verbatim>\<open>partial\<close>, and it is called neither on
  later actions nor for \<^verbatim>\<open>finalize\<close>. The draws replayed and what is recorded for a module
  depend on no other module. The functions of the model return a state on every input: no
  exception of an analyzer leaves them. Once the timeout flag is set, no static analyzer
  is run any more: each is entered in \<^verbatim>\<open>self.errors\<close> as skipped.
\<close>

theorem scheduler_isolates_failures:
  assumes "distinct (map fst analyzers)"
    and "(m, n, an, needs) \<in> set analyzers"
    and "needs \<longrightarrow> errors s m = None"
  shows "(\<not> needs \<longrightarrow>
       analyze_calls m (trace (snd (run_static_analyzers None analyzers s))) =
         Suc (analyze_calls m (trace s)) \<and>
       (case snd (an_analyze an (an_state an)) of
          Inl e \<Rightarrow>
            errors (snd (run_static_analyzers None analyzers s)) m = Some (message e) \<and>
            results (snd (run_static_analyzers None analyzers s)) m = Some (Error (message e))
        | Inr r \<Rightarrow>
            errors (snd (run_static_analyzers None analyzers s)) m = errors s m \<and>
            results (snd (run_static_analyzers None analyzers s)) m = Some (Success r))) \<and>
     (needs \<longrightarrow>
       calls_of m (trace (run_iteration_analyzers rd c None analyzers s)) =
         calls_of m (trace s) @
           fst (module_calls an (replayed_list rd c (GetRootActions c)) (an_state an)) \<and>
       (case fst (snd (module_calls an (replayed_list rd c (GetRootActions c)) (an_state an))) of
          None \<Rightarrow>
            finalize_calls m (trace (run_iteration_analyzers rd c None analyzers s)) =
              Suc (finalize_calls m (trace s))
        | Some e \<Rightarrow>
            errors (run_iteration_analyzers rd c None analyzers s) m = Some (analyze_action_failed e) \<and>
            results (run_iteration_analyzers rd c None analyzers s) m =
              Some (Partial (analyze_action_failed e)) \<and>
            finalize_calls m (trace (run_iteration_analyzers rd c None analyzers s)) =
              finalize_calls m (trace s))) \<and>
     (\<not> needs \<and> timed_out t s \<longrightarrow>
       analyze_calls m (trace (snd (run_static_analyzers t analyzers s))) = analyze_calls m (trace s) \<and>
       errors (snd (run_static_analyzers t analyzers s)) m = Some timeout_skipped)"
proof (cases needs)
  case True
  with assms have i: "(m, n, an, True) \<in> set analyzers" and f: "errors s m = None" by auto
  from iteration_module [OF assms(1) i f, of rd c] True show ?thesis by simp
next
  case False
  with assms have i: "(m, n, an, False) \<in> set analyzers" by auto
  have "timed_out t s \<longrightarrow>
      analyze_calls m (trace (snd (run_static_analyzers t analyzers s))) = analyze_calls m (trace s) \<and>
      errors (snd (run_static_analyzers t analyzers s)) m = Some timeout_skipped"
    using static_module_skipped [OF _ assms(1) i] by blast
  with static_module [OF assms(1) i, of s] False show ?thesis by simp
qed

theorem scheduler_isolates_failures_witness:
  "distinct (map fst example_analyzers) \<and>
   (''basic_stats'', ''Basic'', failing_analyzer, False) \<in> set example_analyzers \<and>
   (''vertex_attrs'', ''Vertex'', failing_analyzer, True) \<in> set example_analyzers \<and>
   results (snd (run_static_analyzers None example_analyzers scheduler_init)) ''basic_stats'' =
     Some (Error ''boom'') \<and>
   analyze_calls ''basic_stats'' (trace (snd (run_static_analyzers None example_analyzers scheduler_init))) = 1 \<and>
   calls_of ''vertex_attrs''
     (trace (run_iteration_analyzers example_flags example_controller None example_analyzers
        scheduler_init)) = [draw1] \<and>
   results (run_iteration_analyzers example_flags example_controller None example_analyzers
      scheduler_init) ''vertex_attrs'' = Some (Partial (analyze_action_failed (Exception ''boom''))) \<and>
   timed_out (Some 0) (scheduler_init :: (unit, unit, unit) scheduler) \<and>
   errors (snd (run_static_analyzers (Some 0) example_analyzers scheduler_init)) ''basic_stats'' =
     Some timeout_skipped"
proof -
  have o: "timed_out (Some 0) (scheduler_init :: (unit, unit, unit) scheduler)"
    by (simp add: timed_out_def)
  have d: "distinct (map fst example_analyzers)"
    by (simp add: example_analyzers_def)
  have i1: "(''basic_stats'', ''Basic'', failing_analyzer, False) \<in> set example_analyzers"
    and i2: "(''vertex_attrs'', ''Vertex'', failing_analyzer, True) \<in> set example_analyzers"
    by (simp_all add: example_analyzers_def)
  have f: "errors (scheduler_init :: (unit, unit, unit) scheduler) ''vertex_attrs'' = None"
    by (simp add: scheduler_init_def)
  have t: "trace (scheduler_init :: (unit, unit, unit) scheduler) = []"
    by (simp add: scheduler_init_def)
  have a: "snd (an_analyze failing_analyzer (an_state failing_analyzer)) = Inl (Exception ''boom'')"
    by (simp add: failing_analyzer_def)
  have mc: "module_calls failing_analyzer
      (replayed_list example_flags example_controller (GetRootActions example_controller))
      (an_state failing_analyzer) = ([draw1], Some (Exception ''boom''), ())"
    by (simp add: example_defs replay_def has_flag_def Let_def)
  from scheduler_isolates_failures
      [OF d i1, where s = scheduler_init and rd = example_flags and c = example_controller and t = None]
    scheduler_isolates_failures
      [OF d i2, where s = scheduler_init and rd = example_flags and c = example_controller and t = None]
    scheduler_isolates_failures
      [OF d i1, where s = scheduler_init and rd = example_flags and c = example_controller and t = "Some 0"]
    d i1 i2 f t a mc o
  show ?thesis by simp
qed

section \<open>The analyzers on a small frame\<close>

text \<open>
  The frame of \<^const>\<open>example_controller\<close>: a marker that holds a draw of 3 indices and a draw
  of 6 indices, one instance each.
\<close>

lemma basic_stats_example:
  "basic_stats_analyze example_flags (GetRootActions example_controller) =
     \<lparr>draw_count = 2, dispatch_count = 0, clear_count = 0, copy_count = 0, marker_count = 1,
      total_actions = 3, max_depth = 1\<rparr>"
  by (simp add: basic_stats_analyze_def basic_stats_init_def count_node_def has_flag_def Let_def
      example_flags_def example_controller_def draw1_def draw2_def)

lemma overdraw_example:
  "or_total_triangles (overdraw_analyze
     (fold overdraw_analyze_action [draw1, draw2] (overdraw_init None []))) = 3"
  by (simp add: overdraw_analyze_def overdraw_analyze_action_def overdraw_init_def
      detect_main_resolution_def num_verts_of_def num_instances_of_def Let_def draw1_def draw2_def)

lemma memory_example:
  "total_size (memory_analyze
     [\<lparr>tex_byteSize = Some 4096, tex_format_name = ''R8G8B8A8_UNORM'', tex_id = ''7'',
        tex_name = None, tex_width = 32, tex_height = 32, tex_depth = 1, tex_mips = 1,
        tex_creationFlags = None\<rparr>,
      \<lparr>tex_byteSize = None, tex_format_name = ''D32'', tex_id = ''8'',
        tex_name = Some ''depth'', tex_width = 32, tex_height = 32, tex_depth = 1, tex_mips = 1,
        tex_creationFlags = None\<rparr>]
     [\<lparr>buf_length = Some 100, buf_id = ''9'', buf_name = None\<rparr>]) = 4196"
  by (simp add: memory_analyze_def memory_results_init_def texture_step_def buffer_step_def
      bump_format_def sort_desc_def Let_def)

end
